theory Spec2Isabelle
  imports Main "HOL-Library.Word" "HOL-Library.AList"
begin

unbundle bit_operations_syntax

section \<open>Data model\<close>

text \<open>
  The decoder and encoder of the QuickJS wire format (the latest revision of the package,
  the one with \<open>ReadValue\<close>, \<open>ReadObject\<close>, \<open>WriteValue\<close> and \<open>setField\<close>).

  A Go \<open>byte\<close> is an 8-bit word. A Go \<open>string\<close> is a sequence of bytes; HOL's \<open>char\<close> is
  a byte as well, so a Go string is a HOL \<open>string\<close>. An \<open>io.Reader\<close> is modelled as
  \<open>bytes.Reader\<close> (the reader of the package's tests): its state is the list of bytes
  not read yet. The platform's \<open>int\<close> has 64 bits, so a count below \<open>2 ^ 32\<close> is a
  \<open>nat\<close>.
\<close>

type_synonym byte = "8 word"
type_synonym stream = "byte list"

definition string_of_bytes :: "byte list \<Rightarrow> string" where
  "string_of_bytes bs = map (\<lambda>b. char_of (unat b)) bs"

text \<open>
  The static types a record field or a dynamic value can have. \<open>TAny\<close> is the empty
  interface; \<open>TInt\<close> and \<open>TIntPtr\<close> (\<open>int\<close> and \<open>*int\<close>, the field types of the package's
  tests) are types that no decoded value has.
\<close>

datatype gotype =
    TAny | TUndefinedValue | TBool | TInt32 | TFloat64 | TString | TMap | TSlice
  | TUint8s | TInt8s | TInt16s | TUint16s | TInt32s | TUint32s | TInt64s | TUint64s
  | TFloat32s | TFloat64s | TArrayBuffer | TUint8ClampedArray | TInt | TIntPtr

text \<open>
  Every panic of the package and of the library calls it makes, as a value. The comments
  give the Go error or the panic's message.
\<close>

datatype error =
    EOF                         \<comment> \<open>\<open>io.EOF\<close>\<close>
  | ErrUnexpectedEOF            \<comment> \<open>\<open>io.ErrUnexpectedEOF\<close>\<close>
  | Overflow_varint             \<comment> \<open>\<open>binary: varint overflows a 64-bit integer\<close>\<close>
  | Overflow_uint32 "64 word"   \<comment> \<open>\<open>uint32 out of range: %d\<close>\<close>
  | Overflow_int32 "64 word"    \<comment> \<open>\<open>int32 out of range: %d\<close>\<close>
  | VersionMismatch byte        \<comment> \<open>\<open>version mismatch (have %d, want %d)\<close>\<close>
  | ObjectExpected byte         \<comment> \<open>\<open>object expected, have %s\<close>\<close>
  | AtomOutOfRange              \<comment> \<open>\<open>atom out of range\<close>\<close>
  | StructuralError             \<comment> \<open>\<open>typed array not followed by arraybuffer\<close>\<close>
  | SizeMismatch                \<comment> \<open>\<open>typed array not followed by arraybuffer of right size\<close>\<close>
  | BadTypedArrayTag byte       \<comment> \<open>\<open>bad typed array tag: %d\<close>\<close>
  | UnsupportedTag byte         \<comment> \<open>\<open>unsupported %s\<close>, with the tag's name\<close>
  | UnsupportedValue gotype     \<comment> \<open>\<open>unsupported type %t\<close>\<close>
  | TypeMismatch gotype gotype  \<comment> \<open>\<open>reflect.Set: value of type %s is not assignable to type %s\<close>\<close>
  | IndexOutOfRange             \<comment> \<open>the runtime's \<open>index out of range\<close>\<close>

text \<open>The two errors a reader gives when the stream ends early.\<close>

definition StreamTruncated :: "error \<Rightarrow> bool" where
  "StreamTruncated e \<longleftrightarrow> e = EOF \<or> e = ErrUnexpectedEOF"

text \<open>
  A value of type \<open>any\<close>. A \<open>float64\<close> or \<open>float32\<close> is its IEEE-754 bit pattern, so
  that equality of floats here is equality of bits (Go's \<open>==\<close> is coarser on zeros and is
  false on a NaN). A map is an association list updated in place, so the last write of a
  key wins. A slice or map that is not nil is its list, \<open>VUint8s []\<close> being the empty
  slice that \<open>make\<close> gives; the nil slice or nil map of a type \<open>t\<close> is \<open>VNilOf t\<close>, which
  \<open>reflect.DeepEqual\<close> tells apart from the empty one. (Only the \<open>Bytes\<close> inside the two
  wrapper structs are not told apart, nil from empty.) \<open>VInt\<close> and \<open>VIntPtr\<close> (a pointer is
  nil or an address) only occur as values of record fields.
\<close>

datatype val =
    VNil
  | VUndefined
  | VBool bool
  | VInt32 "32 word"
  | VFloat64 "64 word"
  | VString string
  | VMap "(string \<times> val) list"
  | VSlice "val list"
  | VUint8s "byte list"
  | VInt8s "8 word list"
  | VInt16s "16 word list"
  | VUint16s "16 word list"
  | VInt32s "32 word list"
  | VUint32s "32 word list"
  | VInt64s "64 word list"
  | VUint64s "64 word list"
  | VFloat32s "32 word list"
  | VFloat64s "64 word list"
  | VArrayBuffer "byte list"
  | VUint8ClampedArray "byte list"
  | VInt "64 word"
  | VIntPtr "nat option"
  | VNilOf gotype

section \<open>Constants\<close>

definition bcVersion :: byte where "bcVersion = 12"

definition tagNull :: byte where "tagNull = 1"
definition tagUndefined :: byte where "tagUndefined = 2"
definition tagFalse :: byte where "tagFalse = 3"
definition tagTrue :: byte where "tagTrue = 4"
definition tagInt32 :: byte where "tagInt32 = 5"
definition tagFloat64 :: byte where "tagFloat64 = 6"
definition tagString :: byte where "tagString = 7"
definition tagObject :: byte where "tagObject = 8"
definition tagArray :: byte where "tagArray = 9"
definition tagTypedArray :: byte where "tagTypedArray = 14"
definition tagArrayBuffer :: byte where "tagArrayBuffer = 15"

definition uint8ClampedArray :: byte where "uint8ClampedArray = 0"
definition int8Array :: byte where "int8Array = 1"
definition uint8Array :: byte where "uint8Array = 2"
definition int16Array :: byte where "int16Array = 3"
definition uint16Array :: byte where "uint16Array = 4"
definition int32Array :: byte where "int32Array = 5"
definition uint32Array :: byte where "uint32Array = 6"
definition bigInt64Array :: byte where "bigInt64Array = 7"
definition bigUint64Array :: byte where "bigUint64Array = 8"
definition float32Array :: byte where "float32Array = 9"
definition float64Array :: byte where "float64Array = 10"

lemmas tag_defs = tagNull_def tagUndefined_def tagFalse_def tagTrue_def tagInt32_def
  tagFloat64_def tagString_def tagObject_def tagArray_def tagTypedArray_def tagArrayBuffer_def

lemmas kind_defs = uint8ClampedArray_def int8Array_def uint8Array_def int16Array_def
  uint16Array_def int32Array_def uint32Array_def bigInt64Array_def bigUint64Array_def
  float32Array_def float64Array_def

section \<open>Reading from the stream\<close>

text \<open>
  \<open>byteReader.ReadByte\<close> and \<open>readByte\<close>: \<open>Read\<close> into a buffer of one byte. At the end
  of the stream \<open>bytes.Reader\<close> returns \<open>io.EOF\<close>, and \<open>readByte\<close> panics with it.
\<close>

definition readByte :: "stream \<Rightarrow> error + byte \<times> stream" where
  "readByte s = (case s of [] \<Rightarrow> Inl EOF | b # s' \<Rightarrow> Inr (b, s'))"

text \<open>
  \<open>readBytes\<close>: one call of \<open>Read\<close> into a fresh buffer of \<open>n\<close> zero bytes. At the end
  of the stream \<open>Read\<close> returns \<open>io.EOF\<close>, which is a panic unless \<open>n = 0\<close>; otherwise it
  copies the bytes there are, at most \<open>n\<close>, and returns no error. The count \<open>Read\<close>
  returns is dropped, so the rest of the buffer stays zero.
\<close>

definition readBytes :: "nat \<Rightarrow> stream \<Rightarrow> error + byte list \<times> stream" where
  "readBytes n s =
     (if s = [] \<and> n > 0 then Inl EOF
      else Inr (take n s @ replicate (n - length s) 0, drop n s))"

text \<open>
  \<open>io.ReadFull\<close>, which \<open>binary.Read\<close> calls with a buffer of the size of the data: it
  reads until the buffer is full; \<open>io.EOF\<close> when it got no byte, \<open>io.ErrUnexpectedEOF\<close>
  when it got some but not all. An empty buffer reads nothing and succeeds.
\<close>

definition ReadFull :: "nat \<Rightarrow> stream \<Rightarrow> error + byte list \<times> stream" where
  "ReadFull k s =
     (if k \<le> length s then Inr (take k s, drop k s)
      else if s = [] then Inl EOF
      else Inl ErrUnexpectedEOF)"

text \<open>
  \<open>binary.Read\<close> with the little-endian order: \<open>ReadFull\<close> of as many bytes as the data
  has, then the decoding \<open>dec\<close> of the bytes into the data.
\<close>

definition binary_Read :: "nat \<Rightarrow> (byte list \<Rightarrow> 'a) \<Rightarrow> stream \<Rightarrow> error + 'a \<times> stream" where
  "binary_Read k dec s =
     (case ReadFull k s of Inl e \<Rightarrow> Inl e | Inr (bs, s') \<Rightarrow> Inr (dec bs, s'))"

text \<open>
  \<open>binary.ReadUvarint\<close>: at most ten bytes, seven bits each, least significant group
  first; the loop's variables are \<open>i\<close>, \<open>x\<close> and the shift \<open>sh\<close>.
\<close>

fun ReadUvarint_loop :: "nat \<Rightarrow> 64 word \<Rightarrow> nat \<Rightarrow> stream \<Rightarrow> error + 64 word \<times> stream" where
  "ReadUvarint_loop i x sh s =
     (if i < 10 then
        (case s of
           [] \<Rightarrow> Inl (if i > 0 then ErrUnexpectedEOF else EOF)
         | b # s' \<Rightarrow>
             if b < 0x80 then
               (if i = 9 \<and> b > 1 then Inl Overflow_varint
                else Inr (x OR push_bit sh (ucast b), s'))
             else ReadUvarint_loop (i + 1) (x OR push_bit sh (ucast (b AND 0x7f))) (sh + 7) s')
      else Inl Overflow_varint)"

declare ReadUvarint_loop.simps [simp del]

definition ReadUvarint :: "stream \<Rightarrow> error + 64 word \<times> stream" where
  "ReadUvarint s = ReadUvarint_loop 0 0 0 s"

text \<open>\<open>binary.ReadVarint\<close>: the zig-zag decoding of \<open>ReadUvarint\<close>'s result.\<close>

definition ReadVarint :: "stream \<Rightarrow> error + 64 word \<times> stream" where
  "ReadVarint s =
     (case ReadUvarint s of
        Inl e \<Rightarrow> Inl e
      | Inr (ux, s') \<Rightarrow>
          (let x = drop_bit 1 ux in Inr (if ux AND 1 \<noteq> 0 then NOT x else x, s')))"

definition readUint32 :: "stream \<Rightarrow> error + nat \<times> stream" where
  "readUint32 s =
     (case ReadUvarint s of
        Inl e \<Rightarrow> Inl e
      | Inr (v, s') \<Rightarrow>
          if v > 0xFFFFFFFF \<or> v > 0x7FFFFFFFFFFFFFFF then Inl (Overflow_uint32 v)
          else Inr (unat v, s'))"

section \<open>Little-endian elements, UTF-16 and decimal text\<close>

text \<open>\<open>binary.LittleEndian\<close>: the first byte is the least significant.\<close>

fun le_word :: "byte list \<Rightarrow> 'a::len word" where
  "le_word [] = 0"
| "le_word (b # bs) = ucast b OR push_bit 8 (le_word bs)"

text \<open>
  The elements \<open>binary.Read\<close> decodes from the bytes it has read: two, four or eight
  bytes each, in order.
\<close>

fun le_words16 :: "byte list \<Rightarrow> 16 word list" where
  "le_words16 (b0 # b1 # bs) = le_word [b0, b1] # le_words16 bs"
| "le_words16 _ = []"

fun le_words32 :: "byte list \<Rightarrow> 32 word list" where
  "le_words32 (b0 # b1 # b2 # b3 # bs) = le_word [b0, b1, b2, b3] # le_words32 bs"
| "le_words32 _ = []"

fun le_words64 :: "byte list \<Rightarrow> 64 word list" where
  "le_words64 (b0 # b1 # b2 # b3 # b4 # b5 # b6 # b7 # bs) =
     le_word [b0, b1, b2, b3, b4, b5, b6, b7] # le_words64 bs"
| "le_words64 _ = []"

text \<open>
  A \<open>float32\<close> element that \<open>binary.Read\<close> decodes into a slice through a pointer goes
  through reflection: \<open>SetFloat(float64(math.Float32frombits(bits)))\<close>, which stores
  \<open>float32\<close> of that \<open>float64\<close>. The two conversions are exact on every value but a
  signalling NaN (all exponent bits set, a fraction that is not zero and whose top bit is
  clear), which the processor makes quiet: it sets the top bit of the fraction.
\<close>

definition quiet32 :: "32 word \<Rightarrow> 32 word" where
  "quiet32 w =
     (if w AND 0x7F800000 = 0x7F800000 \<and> w AND 0x007FFFFF \<noteq> 0 then w OR 0x00400000 else w)"

text \<open>
  \<open>utf16.Decode\<close>: a unit outside the surrogate range is a rune; a high surrogate
  followed by a low one is one rune; any other surrogate is \<open>U+FFFD\<close>.
\<close>

definition DecodeRune :: "16 word \<Rightarrow> 16 word \<Rightarrow> 32 word" where
  "DecodeRune r1 r2 =
     (push_bit 10 (ucast r1 - 0xd800) OR (ucast r2 - 0xdc00)) + 0x10000"

fun utf16_Decode :: "16 word list \<Rightarrow> 32 word list" where
  "utf16_Decode [] = []"
| "utf16_Decode (r # rest) =
     (if r < 0xd800 \<or> 0xe000 \<le> r then ucast r # utf16_Decode rest
      else
        (case rest of
           [] \<Rightarrow> 0xFFFD # utf16_Decode rest
         | r2 # rest' \<Rightarrow>
             if 0xd800 \<le> r \<and> r < 0xdc00 \<and> 0xdc00 \<le> r2 \<and> r2 < 0xe000
             then DecodeRune r r2 # utf16_Decode rest'
             else 0xFFFD # utf16_Decode rest))"

text \<open>\<open>utf8.EncodeRune\<close>, which the conversion \<open>string(runes)\<close> applies to each rune.\<close>

definition EncodeRune3 :: "32 word \<Rightarrow> byte list" where
  "EncodeRune3 r =
     [ucast (0xE0 OR drop_bit 12 r),
      ucast (0x80 OR (drop_bit 6 r AND 0x3F)),
      ucast (0x80 OR (r AND 0x3F))]"

definition EncodeRune :: "32 word \<Rightarrow> byte list" where
  "EncodeRune r =
     (if r \<le> 0x7F then [ucast r]
      else if r \<le> 0x7FF then
        [ucast (0xC0 OR drop_bit 6 r), ucast (0x80 OR (r AND 0x3F))]
      else if r > 0x10FFFF \<or> (0xD800 \<le> r \<and> r \<le> 0xDFFF) then EncodeRune3 0xFFFD
      else if r \<le> 0xFFFF then EncodeRune3 r
      else
        [ucast (0xF0 OR drop_bit 18 r),
         ucast (0x80 OR (drop_bit 12 r AND 0x3F)),
         ucast (0x80 OR (drop_bit 6 r AND 0x3F)),
         ucast (0x80 OR (r AND 0x3F))])"

definition string_of_runes :: "32 word list \<Rightarrow> string" where
  "string_of_runes rs = string_of_bytes (concat (map EncodeRune rs))"

text \<open>\<open>fmt.Sprintf("%d", n)\<close> for an \<open>n\<close> that is not negative.\<close>

fun decimal :: "nat \<Rightarrow> string" where
  "decimal n =
     (if n < 10 then [char_of (48 + n)]
      else decimal (n div 10) @ [char_of (48 + n mod 10)])"

declare decimal.simps [simp del]

text \<open>
  What it means for a text to be the base-10 form of a number: every character is a digit,
  and the digits, read from the left, give the number.
\<close>

definition is_digit :: "char \<Rightarrow> bool" where
  "is_digit c \<longleftrightarrow> (48 :: nat) \<le> of_char c \<and> of_char c \<le> (57 :: nat)"

definition base10_value :: "string \<Rightarrow> nat" where
  "base10_value str = foldl (\<lambda>acc c. 10 * acc + (of_char c - 48)) 0 str"

section \<open>Strings, the header and atoms\<close>

text \<open>
  \<open>readString\<close>: the low bit of the length says whether the string is wide. A wide string
  is read by \<open>binary.Read\<close> into \<open>n\<close> 16-bit units; a narrow one by \<open>readBytes\<close>.
\<close>

definition readString :: "stream \<Rightarrow> error + string \<times> stream" where
  "readString s =
     (case readUint32 s of
        Inl e \<Rightarrow> Inl e
      | Inr (n0, s1) \<Rightarrow>
          (let isWide = (n0 mod 2 = 1); n = n0 div 2 in
           if isWide then
             binary_Read (2 * n) (\<lambda>bs. string_of_runes (utf16_Decode (le_words16 bs))) s1
           else
             (case readBytes n s1 of
                Inl e \<Rightarrow> Inl e
              | Inr (b, s2) \<Rightarrow> Inr (string_of_bytes b, s2))))"

text \<open>The loop of \<open>readHeader\<close>: \<open>count\<close> strings, in order.\<close>

fun readAtoms :: "nat \<Rightarrow> stream \<Rightarrow> error + string list \<times> stream" where
  "readAtoms 0 s = Inr ([], s)"
| "readAtoms (Suc count) s =
     (case readString s of
        Inl e \<Rightarrow> Inl e
      | Inr (a, s1) \<Rightarrow>
          (case readAtoms count s1 of
             Inl e \<Rightarrow> Inl e
           | Inr (atoms, s2) \<Rightarrow> Inr (a # atoms, s2)))"

definition readHeader :: "stream \<Rightarrow> error + string list \<times> stream" where
  "readHeader s =
     (case readByte s of
        Inl e \<Rightarrow> Inl e
      | Inr (version, s1) \<Rightarrow>
          if version \<noteq> bcVersion then Inl (VersionMismatch version)
          else
            (case readUint32 s1 of
               Inl e \<Rightarrow> Inl e
             | Inr (count, s2) \<Rightarrow> readAtoms count s2))"

definition readAtom :: "string list \<Rightarrow> stream \<Rightarrow> error + string \<times> stream" where
  "readAtom atoms s =
     (case readUint32 s of
        Inl e \<Rightarrow> Inl e
      | Inr (idx0, s1) \<Rightarrow>
          (let isTaggedInt = (idx0 mod 2 = 1); idx = idx0 div 2 in
           if isTaggedInt then Inr (decimal idx, s1)
           else if idx > 0 \<and> idx \<le> length atoms then Inr (atoms ! (idx - 1), s1)
           else Inl AtomOutOfRange))"

section \<open>The tag dispatcher\<close>

text \<open>
  The \<open>tagTypedArray\<close> case of \<open>readValue\<close>: the element kind, the count, the offset
  (read and dropped), the tag and the count of the array buffer, and then the elements,
  read by \<open>binary.Read\<close> into a slice of \<open>n\<close> elements of the kind's type. The kind is
  looked at last, by the \<open>switch\<close> that \<open>readElements\<close> stands for.
\<close>

definition readElements :: "byte \<Rightarrow> nat \<Rightarrow> stream \<Rightarrow> error + val \<times> stream" where
  "readElements kind n s =
     (if kind = uint8ClampedArray then binary_Read n VUint8s s
      else if kind = uint8Array then binary_Read n VUint8s s
      else if kind = int8Array then binary_Read n VInt8s s
      else if kind = int16Array then binary_Read (2 * n) (\<lambda>bs. VInt16s (le_words16 bs)) s
      else if kind = uint16Array then binary_Read (2 * n) (\<lambda>bs. VUint16s (le_words16 bs)) s
      else if kind = int32Array then binary_Read (4 * n) (\<lambda>bs. VInt32s (le_words32 bs)) s
      else if kind = uint32Array then binary_Read (4 * n) (\<lambda>bs. VUint32s (le_words32 bs)) s
      else if kind = bigInt64Array then binary_Read (8 * n) (\<lambda>bs. VInt64s (le_words64 bs)) s
      else if kind = bigUint64Array then binary_Read (8 * n) (\<lambda>bs. VUint64s (le_words64 bs)) s
      else if kind = float32Array then
        binary_Read (4 * n) (\<lambda>bs. VFloat32s (map quiet32 (le_words32 bs))) s
      else if kind = float64Array then binary_Read (8 * n) (\<lambda>bs. VFloat64s (le_words64 bs)) s
      else Inl (BadTypedArrayTag kind))"

definition readTypedArray :: "stream \<Rightarrow> error + val \<times> stream" where
  "readTypedArray s =
     (case readByte s of
        Inl e \<Rightarrow> Inl e
      | Inr (kind, s1) \<Rightarrow>
     (case readUint32 s1 of
        Inl e \<Rightarrow> Inl e
      | Inr (n, s2) \<Rightarrow>
     (case readUint32 s2 of
        Inl e \<Rightarrow> Inl e
      | Inr (offset, s3) \<Rightarrow>
     (case readByte s3 of
        Inl e \<Rightarrow> Inl e
      | Inr (t, s4) \<Rightarrow>
          if tagArrayBuffer \<noteq> t then Inl StructuralError
          else
     (case readUint32 s4 of
        Inl e \<Rightarrow> Inl e
      | Inr (m, s5) \<Rightarrow>
          if n \<noteq> m then Inl SizeMismatch
          else readElements kind n s5)))))"

text \<open>Every reader that succeeds leaves a stream that is not longer; most leave a shorter one.\<close>

lemma readByte_length: "readByte s = Inr (b, s') \<Longrightarrow> length s' < length s"
  by (auto simp: readByte_def split: list.splits)

lemma ReadUvarint_loop_length:
  "ReadUvarint_loop i x sh s = Inr (v, s') \<Longrightarrow> length s' < length s"
proof (induction i x sh s rule: ReadUvarint_loop.induct)
  case (1 i x sh s)
  show ?case
  proof (cases s)
    case Nil
    with "1.prems" show ?thesis by (simp add: ReadUvarint_loop.simps [of i x sh "[]"] split: if_splits)
  next
    case (Cons b rest)
    show ?thesis
    proof (cases "i < 10 \<and> \<not> b < 0x80")
      case True
      with "1.prems" Cons have "ReadUvarint_loop (i + 1) (x OR push_bit sh (ucast (b AND 0x7f))) (sh + 7) rest = Inr (v, s')"
        by (simp add: ReadUvarint_loop.simps [of i x sh "b # rest"])
      with "1.IH" [of b rest] True Cons have "length s' < length rest" by simp
      with Cons show ?thesis by simp
    next
      case False
      with "1.prems" Cons show ?thesis
        by (auto simp: ReadUvarint_loop.simps [of i x sh "b # rest"] split: if_splits)
    qed
  qed
qed

lemma readUint32_length: "readUint32 s = Inr (n, s') \<Longrightarrow> length s' < length s"
  by (auto simp: readUint32_def ReadUvarint_def split: sum.splits if_splits dest: ReadUvarint_loop_length)

lemma ReadVarint_length: "ReadVarint s = Inr (n, s') \<Longrightarrow> length s' < length s"
  by (auto simp: ReadVarint_def ReadUvarint_def Let_def split: sum.splits if_splits dest: ReadUvarint_loop_length)

lemma readBytes_length: "readBytes n s = Inr (b, s') \<Longrightarrow> length s' \<le> length s"
  by (auto simp: readBytes_def split: if_splits)

lemma binary_Read_length: "binary_Read k dec s = Inr (b, s') \<Longrightarrow> length s' \<le> length s"
  by (auto simp: binary_Read_def ReadFull_def split: if_splits sum.splits)

lemma readString_length: "readString s = Inr (str, s') \<Longrightarrow> length s' < length s"
  by (auto simp: readString_def Let_def split: sum.splits if_splits
      dest!: readUint32_length readBytes_length binary_Read_length)

lemma readAtom_length: "readAtom atoms s = Inr (a, s') \<Longrightarrow> length s' < length s"
  by (auto simp: readAtom_def Let_def split: sum.splits if_splits dest!: readUint32_length)

lemma readElements_length: "readElements kind n s = Inr (v, s') \<Longrightarrow> length s' \<le> length s"
  by (auto simp: readElements_def split: if_splits dest!: binary_Read_length)

lemma readTypedArray_length: "readTypedArray s = Inr (v, s') \<Longrightarrow> length s' < length s"
  by (auto simp: readTypedArray_def split: sum.splits if_splits
      dest!: readUint32_length readByte_length readElements_length)

text \<open>
  \<open>readValue\<close>, with the loop of its \<open>tagObject\<close> case (\<open>readProps\<close>: \<open>n\<close> pairs of an
  atom and a value, stored into the map \<open>m\<close>) and the loop of its \<open>tagArray\<close> case
  (\<open>readElems\<close>: \<open>n\<close> values, in order). There is no bound on the depth of the recursion.
\<close>

function readValue :: "string list \<Rightarrow> stream \<Rightarrow> error + val \<times> stream"
  and readProps ::
    "string list \<Rightarrow> nat \<Rightarrow> (string \<times> val) list \<Rightarrow> stream \<Rightarrow> error + (string \<times> val) list \<times> stream"
  and readElems :: "string list \<Rightarrow> nat \<Rightarrow> stream \<Rightarrow> error + val list \<times> stream"
where
  "readValue atoms s =
     (case readByte s of
        Inl e \<Rightarrow> Inl e
      | Inr (tag, s1) \<Rightarrow>
          if tag = tagNull then Inr (VNil, s1)
          else if tag = tagUndefined then Inr (VUndefined, s1)
          else if tag = tagFalse then Inr (VBool False, s1)
          else if tag = tagTrue then Inr (VBool True, s1)
          else if tag = tagInt32 then
            (case ReadVarint s1 of
               Inl e \<Rightarrow> Inl e
             | Inr (v, s2) \<Rightarrow>
                 if sint v < - (2 ^ 31) \<or> sint v > 2 ^ 31 - 1 then Inl (Overflow_int32 v)
                 else Inr (VInt32 (ucast v), s2))
          else if tag = tagFloat64 then binary_Read 8 (\<lambda>bs. VFloat64 (le_word bs)) s1
          else if tag = tagString then
            (case readString s1 of
               Inl e \<Rightarrow> Inl e
             | Inr (str, s2) \<Rightarrow> Inr (VString str, s2))
          else if tag = tagObject then
            (case readUint32 s1 of
               Inl e \<Rightarrow> Inl e
             | Inr (n, s2) \<Rightarrow>
                 (case readProps atoms n [] s2 of
                    Inl e \<Rightarrow> Inl e
                  | Inr (m, s3) \<Rightarrow> Inr (VMap m, s3)))
          else if tag = tagArray then
            (case readUint32 s1 of
               Inl e \<Rightarrow> Inl e
             | Inr (n, s2) \<Rightarrow>
                 (case readElems atoms n s2 of
                    Inl e \<Rightarrow> Inl e
                  | Inr (v, s3) \<Rightarrow> Inr (VSlice v, s3)))
          else if tag = tagArrayBuffer then
            (case readUint32 s1 of
               Inl e \<Rightarrow> Inl e
             | Inr (n, s2) \<Rightarrow>
                 (case readBytes n s2 of
                    Inl e \<Rightarrow> Inl e
                  | Inr (b, s3) \<Rightarrow> Inr (VUint8s b, s3)))
          else if tag = tagTypedArray then readTypedArray s1
          else Inl (UnsupportedTag tag))"
| "readProps atoms 0 m s = Inr (m, s)"
| "readProps atoms (Suc n) m s =
     (case readAtom atoms s of
        Inl e \<Rightarrow> Inl e
      | Inr (atom, s1) \<Rightarrow>
          (case readValue atoms s1 of
             Inl e \<Rightarrow> Inl e
           | Inr (v, s2) \<Rightarrow> readProps atoms n (AList.update atom v m) s2))"
| "readElems atoms 0 s = Inr ([], s)"
| "readElems atoms (Suc n) s =
     (case readValue atoms s of
        Inl e \<Rightarrow> Inl e
      | Inr (v, s1) \<Rightarrow>
          (case readElems atoms n s1 of
             Inl e \<Rightarrow> Inl e
           | Inr (vs, s2) \<Rightarrow> Inr (v # vs, s2)))"
  by pat_completeness auto

text \<open>
  The recursion ends because every call of \<open>readValue\<close> reads its tag first: where the
  function is defined, the stream it returns is shorter than the one it was given.
\<close>

lemma readValue_partial_length:
  "readValue_readProps_readElems_dom (Inl (atoms, s)) \<Longrightarrow>
     readValue atoms s = Inr (v, s') \<Longrightarrow> length s' < length s"
  "readValue_readProps_readElems_dom (Inr (Inl (atoms, n, m, s))) \<Longrightarrow>
     readProps atoms n m s = Inr (m', s') \<Longrightarrow> length s' \<le> length s"
  "readValue_readProps_readElems_dom (Inr (Inr (atoms, n, s))) \<Longrightarrow>
     readElems atoms n s = Inr (vs, s') \<Longrightarrow> length s' \<le> length s"
proof (induction atoms s and atoms n m s and atoms n s arbitrary: v s' and m' s' and vs s'
    rule: readValue_readProps_readElems.pinduct)
  case (1 atoms s)
  note dom = "1.hyps"
  from "1.prems" obtain tag s1 where rb: "readByte s = Inr (tag, s1)"
    by (auto simp: readValue.psimps [OF dom] split: sum.splits)
  hence l1: "length s1 < length s" by (rule readByte_length)
  show ?case
  proof (cases "tag = tagObject \<or> tag = tagArray")
    case False
    with "1.prems" rb l1 show ?thesis
      by (auto simp: readValue.psimps [OF dom] split: sum.splits if_splits
          dest!: ReadVarint_length binary_Read_length readString_length readUint32_length
            readBytes_length readTypedArray_length)
  next
    case True
    then show ?thesis
    proof
      assume t: "tag = tagObject"
      with "1.prems" rb obtain n s2 m where ru: "readUint32 s1 = Inr (n, s2)"
        and rp: "readProps atoms n [] s2 = Inr (m, s')"
        by (auto simp: readValue.psimps [OF dom] tag_defs split: sum.splits)
      have "length s' \<le> length s2"
        using "1.IH"(1) [of "(tag, s1)" tag s1 "(n, s2)" n s2 m s'] rb t ru rp
        by (simp add: tag_defs)
      with readUint32_length [OF ru] l1 show ?thesis by simp
    next
      assume t: "tag = tagArray"
      with "1.prems" rb obtain n s2 vs where ru: "readUint32 s1 = Inr (n, s2)"
        and rp: "readElems atoms n s2 = Inr (vs, s')"
        by (auto simp: readValue.psimps [OF dom] tag_defs split: sum.splits)
      have "length s' \<le> length s2"
        using "1.IH"(2) [of "(tag, s1)" tag s1 "(n, s2)" n s2 vs s'] rb t ru rp
        by (simp add: tag_defs)
      with readUint32_length [OF ru] l1 show ?thesis by simp
    qed
  qed
next
  case (2 atoms m s)
  then show ?case by (simp add: readProps.psimps)
next
  case (3 atoms n m s)
  note dom = "3.hyps"
  from "3.prems" obtain a s1 v s2 where ra: "readAtom atoms s = Inr (a, s1)"
    and rv: "readValue atoms s1 = Inr (v, s2)"
    and rp: "readProps atoms n (AList.update a v m) s2 = Inr (m', s')"
    by (auto simp: readProps.psimps(2) [OF dom] split: sum.splits)
  have "length s2 < length s1"
    using "3.IH"(1) [of "(a, s1)" a s1 v s2] ra rv by simp
  moreover have "length s' \<le> length s2"
    using "3.IH"(2) [of "(a, s1)" a s1 "(v, s2)" v s2 m' s'] ra rv rp by simp
  ultimately show ?case using readAtom_length [OF ra] by simp
next
  case (4 atoms s)
  then show ?case by (simp add: readElems.psimps)
next
  case (5 atoms n s)
  note dom = "5.hyps"
  from "5.prems" obtain v s1 vs' where rv: "readValue atoms s = Inr (v, s1)"
    and re: "readElems atoms n s1 = Inr (vs', s')"
    by (auto simp: readElems.psimps(2) [OF dom] split: sum.splits)
  have "length s1 < length s"
    using "5.IH"(1) [of v s1] rv by simp
  moreover have "length s' \<le> length s1"
    using "5.IH"(2) [of "(v, s1)" v s1 vs' s'] rv re by simp
  ultimately show ?case by simp
qed

termination readValue
  apply (relation "measure (\<lambda>x. case x of
      Inl (atoms, s) \<Rightarrow> 2 * length s
    | Inr (Inl (atoms, n, m, s)) \<Rightarrow> 2 * length s + 1
    | Inr (Inr (atoms, n, s)) \<Rightarrow> 2 * length s + 1)")
        apply simp
       apply (fastforce dest: readByte_length readUint32_length)
      apply (fastforce dest: readByte_length readUint32_length)
     apply (fastforce dest: readAtom_length)
    apply (fastforce dest: readAtom_length readValue_partial_length(1))
   apply simp
  apply (fastforce dest: readValue_partial_length(1))
  done

declare readValue.simps [simp del]

text \<open>
  \<open>ReadValue\<close>: the header, then one value. A panic is recovered into the error the call
  returns (the value is then nil: the result is the error alone). On success the result
  also has the reader's state after the call, the bytes not read.
\<close>

definition ReadValue :: "stream \<Rightarrow> error + val \<times> stream" where
  "ReadValue r =
     (case readHeader r of
        Inl e \<Rightarrow> Inl e
      | Inr (atoms, r1) \<Rightarrow> readValue atoms r1)"

text \<open>
  The same call with the two results its caller receives, \<open>v\<close> and \<open>err\<close>. The named
  result \<open>v\<close> is assigned by \<open>v = readValue(r, atoms)\<close> alone, when \<open>readValue\<close> returns:
  after a panic, in the header or in the value, the deferred function sets \<open>err\<close> and
  \<open>v\<close> still has its zero value, nil; the slices and maps that \<open>readValue\<close> was filling
  are dropped with its frames.
\<close>

definition ReadValue_v_err :: "stream \<Rightarrow> val \<times> error option" where
  "ReadValue_v_err r =
     (case readHeader r of
        Inl e \<Rightarrow> (VNil, Some e)
      | Inr (atoms, r1) \<Rightarrow>
          (case readValue atoms r1 of
             Inl e \<Rightarrow> (VNil, Some e)
           | Inr (v, r2) \<Rightarrow> (v, None)))"

section \<open>The object field binder\<close>

text \<open>
  The record a caller hands to \<open>ReadObject\<close>, behind its pointer: the fields of a struct
  without embedded fields, in order, each with its name, its declared type and its
  present value.
\<close>

record field =
  fname :: string
  ftype :: gotype
  fvalue :: val

type_synonym gostruct = "field list"

text \<open>The dynamic type of a value that is not the nil interface; a nil slice has its slice type.\<close>

fun typeOf :: "val \<Rightarrow> gotype" where
  "typeOf VNil = TAny"
| "typeOf VUndefined = TUndefinedValue"
| "typeOf (VBool b) = TBool"
| "typeOf (VInt32 i) = TInt32"
| "typeOf (VFloat64 f) = TFloat64"
| "typeOf (VString str) = TString"
| "typeOf (VMap m) = TMap"
| "typeOf (VSlice vs) = TSlice"
| "typeOf (VUint8s bs) = TUint8s"
| "typeOf (VInt8s bs) = TInt8s"
| "typeOf (VInt16s ws) = TInt16s"
| "typeOf (VUint16s ws) = TUint16s"
| "typeOf (VInt32s ws) = TInt32s"
| "typeOf (VUint32s ws) = TUint32s"
| "typeOf (VInt64s ws) = TInt64s"
| "typeOf (VUint64s ws) = TUint64s"
| "typeOf (VFloat32s ws) = TFloat32s"
| "typeOf (VFloat64s ws) = TFloat64s"
| "typeOf (VArrayBuffer bs) = TArrayBuffer"
| "typeOf (VUint8ClampedArray bs) = TUint8ClampedArray"
| "typeOf (VInt i) = TInt"
| "typeOf (VIntPtr p) = TIntPtr"
| "typeOf (VNilOf t) = t"

text \<open>
  The zero value of a type, which \<open>SetZero\<close> stores: for a slice or map type it is the nil
  slice or map.
\<close>

fun zero :: "gotype \<Rightarrow> val" where
  "zero TAny = VNil"
| "zero TUndefinedValue = VUndefined"
| "zero TBool = VBool False"
| "zero TInt32 = VInt32 0"
| "zero TFloat64 = VFloat64 0"
| "zero TString = VString []"
| "zero TMap = VNilOf TMap"
| "zero TSlice = VNilOf TSlice"
| "zero TUint8s = VNilOf TUint8s"
| "zero TInt8s = VNilOf TInt8s"
| "zero TInt16s = VNilOf TInt16s"
| "zero TUint16s = VNilOf TUint16s"
| "zero TInt32s = VNilOf TInt32s"
| "zero TUint32s = VNilOf TUint32s"
| "zero TInt64s = VNilOf TInt64s"
| "zero TUint64s = VNilOf TUint64s"
| "zero TFloat32s = VNilOf TFloat32s"
| "zero TFloat64s = VNilOf TFloat64s"
| "zero TArrayBuffer = VArrayBuffer []"
| "zero TUint8ClampedArray = VUint8ClampedArray []"
| "zero TInt = VInt 0"
| "zero TIntPtr = VIntPtr None"

text \<open>
  What \<open>reflect.Value.Set\<close> accepts: a value whose type is the field's type, or any
  value when the field's type is the empty interface.
\<close>

definition assignable :: "gotype \<Rightarrow> gotype \<Rightarrow> bool" where
  "assignable t ft \<longleftrightarrow> t = ft \<or> ft = TAny"

text \<open>
  \<open>FieldByName\<close>: the index of the first field of that name; the empty name finds
  nothing.
\<close>

fun index_of :: "string \<Rightarrow> gostruct \<Rightarrow> nat option" where
  "index_of name [] = None"
| "index_of name (f # fs) =
     (if fname f = name then Some 0 else map_option Suc (index_of name fs))"

definition FieldByName :: "gostruct \<Rightarrow> string \<Rightarrow> nat option" where
  "FieldByName pv name = (if name \<noteq> [] then index_of name pv else None)"

text \<open>
  \<open>setField\<close>: no field of that name, nothing happens. Otherwise the nil interface (an
  invalid \<open>reflect.Value\<close>) sets the field to its zero value, and any other value is
  stored by \<open>Set\<close>, which panics when the value is not assignable. The result is the
  record after the call, and \<open>ok\<close>.
\<close>

definition setField :: "gostruct \<Rightarrow> string \<Rightarrow> val \<Rightarrow> error + gostruct \<times> bool" where
  "setField pv name v =
     (case FieldByName pv name of
        None \<Rightarrow> Inr (pv, False)
      | Some i \<Rightarrow>
          (let fv = pv ! i in
           if v \<noteq> VNil then
             (if assignable (typeOf v) (ftype fv) then Inr (pv[i := fv\<lparr>fvalue := v\<rparr>], True)
              else Inl (TypeMismatch (typeOf v) (ftype fv)))
           else Inr (pv[i := fv\<lparr>fvalue := zero (ftype fv)\<rparr>], True)))"

text \<open>
  The loop of \<open>ReadObject\<close>: each property is read and stored into the record at once.
  The result is the record as the call leaves it and the error it returns, if any.
\<close>

fun readFields ::
  "string list \<Rightarrow> nat \<Rightarrow> stream \<Rightarrow> gostruct \<Rightarrow> gostruct \<times> error option" where
  "readFields atoms 0 s pv = (pv, None)"
| "readFields atoms (Suc count) s pv =
     (case readAtom atoms s of
        Inl e \<Rightarrow> (pv, Some e)
      | Inr (name, s1) \<Rightarrow>
          (case readValue atoms s1 of
             Inl e \<Rightarrow> (pv, Some e)
           | Inr (v, s2) \<Rightarrow>
               (case setField pv name v of
                  Inl e \<Rightarrow> (pv, Some e)
                | Inr (pv', ok) \<Rightarrow> readFields atoms count s2 pv')))"

definition ReadObject :: "stream \<Rightarrow> gostruct \<Rightarrow> gostruct \<times> error option" where
  "ReadObject r pv =
     (case readHeader r of
        Inl e \<Rightarrow> (pv, Some e)
      | Inr (atoms, r1) \<Rightarrow>
          (case readByte r1 of
             Inl e \<Rightarrow> (pv, Some e)
           | Inr (tag, r2) \<Rightarrow>
               if tag \<noteq> tagObject then (pv, Some (ObjectExpected tag))
               else
                 (case readUint32 r2 of
                    Inl e \<Rightarrow> (pv, Some e)
                  | Inr (count, r3) \<Rightarrow> readFields atoms count r3 pv)))"

section \<open>The encoder\<close>

text \<open>
  The writer is a \<open>bytes.Buffer\<close>, which never fails: its state is the bytes written so
  far, and \<open>write\<close> appends.

  \<open>binary.PutUvarint\<close>, and \<open>writeUvarint\<close>, whose buffer has eight bytes: a value that
  needs more is an index out of range, before anything is written.
\<close>

fun PutUvarint :: "nat \<Rightarrow> byte list" where
  "PutUvarint x =
     (if x \<ge> 0x80 then (of_nat x OR 0x80) # PutUvarint (x div 0x80) else [of_nat x])"

declare PutUvarint.simps [simp del]

definition writeUvarint :: "byte list \<Rightarrow> nat \<Rightarrow> error + byte list" where
  "writeUvarint w v =
     (let b = PutUvarint v in if length b > 8 then Inl IndexOutOfRange else Inr (w @ b))"

text \<open>The bytes \<open>binary.Write\<close> gives an element of \<open>k\<close> bytes, least significant first.\<close>

fun le_bytes :: "nat \<Rightarrow> 'a::len word \<Rightarrow> byte list" where
  "le_bytes 0 x = []"
| "le_bytes (Suc k) x = ucast x # le_bytes k (drop_bit 8 x)"

text \<open>
  \<open>writeTypedArray\<close>; \<open>n\<close> is the number of elements and \<open>bs\<close> the bytes of the slice as
  \<open>binary.Write\<close> lays them out. The result is the writer's state and the error, if any.
\<close>

definition writeTypedArray ::
  "byte list \<Rightarrow> nat \<Rightarrow> byte list \<Rightarrow> byte \<Rightarrow> byte list \<times> error option" where
  "writeTypedArray w n bs tag =
     (let w1 = w @ [tagTypedArray, tag] in
      case writeUvarint w1 n of
        Inl e \<Rightarrow> (w1, Some e)
      | Inr w2 \<Rightarrow>
     (case writeUvarint w2 0 of
        Inl e \<Rightarrow> (w2, Some e)
      | Inr w3 \<Rightarrow>
     (let w4 = w3 @ [tagArrayBuffer] in
      case writeUvarint w4 n of
        Inl e \<Rightarrow> (w4, Some e)
      | Inr w5 \<Rightarrow> (w5 @ bs, None))))"

text \<open>
  \<open>WriteValue\<close> into an empty buffer: the bytes written and the error returned. The atom
  table it writes is always empty. The type switch takes a nil slice by its type, like any
  other slice of that type, and it is written as a slice of no elements. \<open>binary.Write\<close>
  is handed the slice itself, not a pointer to it, and writes the bits of each element as
  they are, floats too.
\<close>

definition WriteValue :: "val \<Rightarrow> byte list \<times> error option" where
  "WriteValue v =
     (let atoms = [] :: string list; w0 = [bcVersion] in
      case writeUvarint w0 (length atoms) of
        Inl e \<Rightarrow> (w0, Some e)
      | Inr w \<Rightarrow>
          (case v of
             VNil \<Rightarrow> (w @ [tagNull], None)
           | VUndefined \<Rightarrow> (w @ [tagUndefined], None)
           | VBool t \<Rightarrow> (w @ [if t then tagTrue else tagFalse], None)
           | VArrayBuffer bytes \<Rightarrow>
               (let w1 = w @ [tagArrayBuffer] in
                case writeUvarint w1 (length bytes) of
                  Inl e \<Rightarrow> (w1, Some e)
                | Inr w2 \<Rightarrow> (w2 @ bytes, None))
           | VUint8ClampedArray bytes \<Rightarrow> writeTypedArray w (length bytes) bytes uint8ClampedArray
           | VUint8s t \<Rightarrow> writeTypedArray w (length t) t uint8Array
           | VInt8s t \<Rightarrow> writeTypedArray w (length t) t int8Array
           | VInt16s t \<Rightarrow> writeTypedArray w (length t) (concat (map (le_bytes 2) t)) int16Array
           | VUint16s t \<Rightarrow> writeTypedArray w (length t) (concat (map (le_bytes 2) t)) uint16Array
           | VInt32s t \<Rightarrow> writeTypedArray w (length t) (concat (map (le_bytes 4) t)) int32Array
           | VUint32s t \<Rightarrow> writeTypedArray w (length t) (concat (map (le_bytes 4) t)) uint32Array
           | VInt64s t \<Rightarrow> writeTypedArray w (length t) (concat (map (le_bytes 8) t)) bigInt64Array
           | VUint64s t \<Rightarrow> writeTypedArray w (length t) (concat (map (le_bytes 8) t)) bigUint64Array
           | VFloat32s t \<Rightarrow> writeTypedArray w (length t) (concat (map (le_bytes 4) t)) float32Array
           | VFloat64s t \<Rightarrow> writeTypedArray w (length t) (concat (map (le_bytes 8) t)) float64Array
           | VNilOf t \<Rightarrow>
               if t = TUint8s then writeTypedArray w 0 [] uint8Array
               else if t = TInt8s then writeTypedArray w 0 [] int8Array
               else if t = TInt16s then writeTypedArray w 0 [] int16Array
               else if t = TUint16s then writeTypedArray w 0 [] uint16Array
               else if t = TInt32s then writeTypedArray w 0 [] int32Array
               else if t = TUint32s then writeTypedArray w 0 [] uint32Array
               else if t = TInt64s then writeTypedArray w 0 [] bigInt64Array
               else if t = TUint64s then writeTypedArray w 0 [] bigUint64Array
               else if t = TFloat32s then writeTypedArray w 0 [] float32Array
               else if t = TFloat64s then writeTypedArray w 0 [] float64Array
               else (w, Some (UnsupportedValue t))
           | _ \<Rightarrow> (w, Some (UnsupportedValue (typeOf v)))))"

section \<open>Notions the statements use\<close>

text \<open>
  A stream of \<open>n\<close> arrays of one element, each inside the one before, around a null, and
  the value it encodes.
\<close>

primrec nested_stream :: "nat \<Rightarrow> stream" where
  "nested_stream 0 = [tagNull]"
| "nested_stream (Suc n) = tagArray # 1 # nested_stream n"

primrec nested_value :: "nat \<Rightarrow> val" where
  "nested_value 0 = VNil"
| "nested_value (Suc n) = VSlice [nested_value n]"

text \<open>
  What \<open>ReadObject\<close> does before its loop: the header, the tag, which has to be that of
  an object, and the number of properties.
\<close>

definition readObjectHead :: "stream \<Rightarrow> error + (string list \<times> nat) \<times> stream" where
  "readObjectHead r =
     (case readHeader r of
        Inl e \<Rightarrow> Inl e
      | Inr (atoms, r1) \<Rightarrow>
          (case readByte r1 of
             Inl e \<Rightarrow> Inl e
           | Inr (tag, r2) \<Rightarrow>
               if tag \<noteq> tagObject then Inl (ObjectExpected tag)
               else
                 (case readUint32 r2 of
                    Inl e \<Rightarrow> Inl e
                  | Inr (count, r3) \<Rightarrow> Inr ((atoms, count), r3))))"

text \<open>
  The two halves of the loop of \<open>ReadObject\<close>, apart: \<open>decodeProps\<close> is the properties
  the stream gives before the first error of decoding (and that error), \<open>bindProps\<close>
  stores properties into a record with \<open>setField\<close> until the first error of binding, and
  \<open>bound_until_error\<close> is the record with the decoded properties bound, and the first
  error of the two.
\<close>

fun decodeProps :: "string list \<Rightarrow> nat \<Rightarrow> stream \<Rightarrow> (string \<times> val) list \<times> error option" where
  "decodeProps atoms 0 s = ([], None)"
| "decodeProps atoms (Suc count) s =
     (case readAtom atoms s of
        Inl e \<Rightarrow> ([], Some e)
      | Inr (name, s1) \<Rightarrow>
          (case readValue atoms s1 of
             Inl e \<Rightarrow> ([], Some e)
           | Inr (v, s2) \<Rightarrow>
               (case decodeProps atoms count s2 of (ps, err) \<Rightarrow> ((name, v) # ps, err))))"

fun bindProps :: "gostruct \<Rightarrow> (string \<times> val) list \<Rightarrow> gostruct \<times> error option" where
  "bindProps pv [] = (pv, None)"
| "bindProps pv ((name, v) # ps) =
     (case setField pv name v of
        Inl e \<Rightarrow> (pv, Some e)
      | Inr (pv', ok) \<Rightarrow> bindProps pv' ps)"

definition bound_until_error ::
  "gostruct \<Rightarrow> (string \<times> val) list \<times> error option \<Rightarrow> gostruct \<times> error option" where
  "bound_until_error pv d =
     (case bindProps pv (fst d) of
        (pv', Some e) \<Rightarrow> (pv', Some e)
      | (pv', None) \<Rightarrow> (pv', snd d))"

text \<open>
  A reader \<open>f\<close> reads \<open>x\<close> from the front of \<open>s\<close> and leaves \<open>s'\<close>, whatever follows what it
  has read: \<open>s\<close> is some bytes \<open>p\<close> followed by \<open>s'\<close>, and \<open>f\<close> gives \<open>x\<close> on \<open>p\<close> followed by
  anything, leaving what follows.
\<close>

definition reads :: "(stream \<Rightarrow> error + 'a \<times> stream) \<Rightarrow> stream \<Rightarrow> 'a \<Rightarrow> stream \<Rightarrow> bool" where
  "reads f s x s' \<longleftrightarrow> (\<exists>p. s = p @ s' \<and> (\<forall>t. f (p @ t) = Inr (x, t)))"

text \<open>
  For the round trip: the values \<open>WriteValue\<close> has a case for (\<open>supported\<close>), the number
  of elements of a slice or buffer (\<open>elements\<close>), and the value that \<open>ReadValue\<close> gives
  back for an encoded value (\<open>decoded\<close>): the value itself, except that an \<open>ArrayBuffer\<close>
  and a \<open>Uint8ClampedArray\<close> come back as the plain byte slice of their bytes, a nil slice
  comes back as the empty slice, and the signalling NaNs of a slice of \<open>float32\<close> come back
  quiet.
\<close>

fun elements :: "val \<Rightarrow> nat" where
  "elements (VUint8s t) = length t"
| "elements (VInt8s t) = length t"
| "elements (VInt16s t) = length t"
| "elements (VUint16s t) = length t"
| "elements (VInt32s t) = length t"
| "elements (VUint32s t) = length t"
| "elements (VInt64s t) = length t"
| "elements (VUint64s t) = length t"
| "elements (VFloat32s t) = length t"
| "elements (VFloat64s t) = length t"
| "elements (VArrayBuffer t) = length t"
| "elements (VUint8ClampedArray t) = length t"
| "elements v = 0"

text \<open>The slice types \<open>WriteValue\<close> has a case for, and the empty slice of such a type.\<close>

definition slice_types :: "gotype list" where
  "slice_types = [TUint8s, TInt8s, TInt16s, TUint16s, TInt32s, TUint32s, TInt64s, TUint64s,
     TFloat32s, TFloat64s]"

fun empty_of :: "gotype \<Rightarrow> val" where
  "empty_of TUint8s = VUint8s []"
| "empty_of TInt8s = VInt8s []"
| "empty_of TInt16s = VInt16s []"
| "empty_of TUint16s = VUint16s []"
| "empty_of TInt32s = VInt32s []"
| "empty_of TUint32s = VUint32s []"
| "empty_of TInt64s = VInt64s []"
| "empty_of TUint64s = VUint64s []"
| "empty_of TFloat32s = VFloat32s []"
| "empty_of TFloat64s = VFloat64s []"
| "empty_of t = VNilOf t"

fun supported :: "val \<Rightarrow> bool" where
  "supported VNil = True"
| "supported VUndefined = True"
| "supported (VBool t) = True"
| "supported (VArrayBuffer t) = True"
| "supported (VUint8ClampedArray t) = True"
| "supported (VUint8s t) = True"
| "supported (VInt8s t) = True"
| "supported (VInt16s t) = True"
| "supported (VUint16s t) = True"
| "supported (VInt32s t) = True"
| "supported (VUint32s t) = True"
| "supported (VInt64s t) = True"
| "supported (VUint64s t) = True"
| "supported (VFloat32s t) = True"
| "supported (VFloat64s t) = True"
| "supported (VNilOf t) = (t \<in> set slice_types)"
| "supported v = False"

fun decoded :: "val \<Rightarrow> val" where
  "decoded (VArrayBuffer bytes) = VUint8s bytes"
| "decoded (VUint8ClampedArray bytes) = VUint8s bytes"
| "decoded (VFloat32s t) = VFloat32s (map quiet32 t)"
| "decoded (VNilOf t) = empty_of t"
| "decoded v = v"

text \<open>
  The values that come back as they went in: everything supported but the two wrapper
  structs, a nil slice, and a slice of \<open>float32\<close> that holds a signalling NaN.
\<close>

definition signalling32 :: "32 word \<Rightarrow> bool" where
  "signalling32 w \<longleftrightarrow>
     w AND 0x7F800000 = 0x7F800000 \<and> w AND 0x007FFFFF \<noteq> 0 \<and> w AND 0x00400000 = 0"

fun faithful :: "val \<Rightarrow> bool" where
  "faithful (VArrayBuffer bytes) = False"
| "faithful (VUint8ClampedArray bytes) = False"
| "faithful (VFloat32s t) = (\<not> list_ex signalling32 t)"
| "faithful (VNilOf t) = False"
| "faithful v = supported v"

section \<open>The version byte\<close>

lemma readHeader_version:
  "b \<noteq> bcVersion \<Longrightarrow> readHeader (b # rest) = Inl (VersionMismatch b)"
  by (simp add: readHeader_def readByte_def)

text \<open>
  Claim C6. A stream whose first byte is not the supported version makes every decode
  operation fail with \<open>VersionMismatch\<close>, whatever bytes follow: \<open>ReadValue\<close> returns that
  error, and \<open>ReadObject\<close> returns it and leaves the record as it was.
\<close>

theorem wrong_version_fails:
  "b \<noteq> bcVersion \<Longrightarrow>
     ReadValue (b # rest) = Inl (VersionMismatch b) \<and>
     ReadObject (b # rest) pv = (pv, Some (VersionMismatch b))"
  by (simp add: ReadValue_def ReadObject_def readHeader_version)

theorem wrong_version_fails_witness:
  "(11 :: byte) \<noteq> bcVersion \<and>
     ReadValue [11, 0, 1] = Inl (VersionMismatch 11) \<and>
     ReadObject [11, 0, 1] [\<lparr>fname = ''k'', ftype = TInt, fvalue = VInt 42\<rparr>] =
       ([\<lparr>fname = ''k'', ftype = TInt, fvalue = VInt 42\<rparr>], Some (VersionMismatch 11))"
  using wrong_version_fails [of 11 "[0, 1]" "[\<lparr>fname = ''k'', ftype = TInt, fvalue = VInt 42\<rparr>]"]
  by (simp add: bcVersion_def)

section \<open>The header the encoder writes\<close>

lemma writeUvarint_zero: "writeUvarint w 0 = Inr (w @ [0])"
  by (simp add: writeUvarint_def PutUvarint.simps [of 0])

lemma writeUvarint_extends: "writeUvarint w n = Inr w' \<Longrightarrow> \<exists>x. w' = w @ x"
  by (auto simp: writeUvarint_def Let_def split: if_splits)

lemma writeTypedArray_extends:
  "writeTypedArray w n bs tag = (out, None) \<Longrightarrow> \<exists>x. out = w @ x"
  by (auto simp: writeTypedArray_def Let_def split: sum.splits dest!: writeUvarint_extends)

text \<open>
  Claim C10. Every byte stream that \<open>WriteValue\<close> produces without an error begins with
  the version byte 12 and the atom count 0: the atom table is empty, whatever the value.
\<close>

theorem WriteValue_empty_atom_table:
  "WriteValue v = (out, None) \<Longrightarrow> \<exists>payload. out = 12 # 0 # payload"
  by (cases v)
    (auto simp: WriteValue_def writeUvarint_zero bcVersion_def Let_def
      split: sum.splits if_splits dest!: writeUvarint_extends writeTypedArray_extends)

theorem WriteValue_empty_atom_table_witness:
  "WriteValue (VBool True) = ([12, 0, 4], None) \<and>
     (\<exists>payload. [12, 0, 4] = 12 # 0 # (payload :: byte list))"
  using WriteValue_empty_atom_table [of "VBool True" "[12, 0, 4]"]
  by (simp add: WriteValue_def writeUvarint_zero bcVersion_def tag_defs)

section \<open>Reading single values\<close>

text \<open>A varint of one byte, and what \<open>readValue\<close> does after each tag.\<close>

lemma unat_ucast_byte64: "unat (ucast (b :: byte) :: 64 word) = unat b"
proof -
  have "unat b < 2 ^ 8" using unsigned_less [of b] by simp
  then have "unat b < 2 ^ 64" by simp
  then show ?thesis by (simp add: unsigned_ucast_eq take_bit_nat_eq_self)
qed

lemma readUint32_single: "b < 0x80 \<Longrightarrow> readUint32 (b # s) = Inr (unat b, s)"
proof -
  assume b: "b < 0x80"
  have "unat b < 2 ^ 8" using unsigned_less [of b] by simp
  then have "\<not> (ucast b :: 64 word) > 0xFFFFFFFF" "\<not> (ucast b :: 64 word) > 0x7FFFFFFFFFFFFFFF"
    by (simp_all add: word_less_nat_alt unat_ucast_byte64)
  with b show ?thesis
    by (simp add: readUint32_def ReadUvarint_def ReadUvarint_loop.simps [of 0 0 0 "b # s"]
        unat_ucast_byte64)
qed

lemma readValue_Null: "readValue atoms (tagNull # s) = Inr (VNil, s)"
  by (subst readValue.simps) (simp add: readByte_def)

lemma readValue_Undefined: "readValue atoms (tagUndefined # s) = Inr (VUndefined, s)"
  by (subst readValue.simps) (simp add: readByte_def tag_defs)

lemma readValue_False: "readValue atoms (tagFalse # s) = Inr (VBool False, s)"
  by (subst readValue.simps) (simp add: readByte_def tag_defs)

lemma readValue_True: "readValue atoms (tagTrue # s) = Inr (VBool True, s)"
  by (subst readValue.simps) (simp add: readByte_def tag_defs)

lemma readValue_Array:
  "readValue atoms (tagArray # s) =
     (case readUint32 s of
        Inl e \<Rightarrow> Inl e
      | Inr (n, s2) \<Rightarrow>
          (case readElems atoms n s2 of Inl e \<Rightarrow> Inl e | Inr (v, s3) \<Rightarrow> Inr (VSlice v, s3)))"
  by (subst readValue.simps) (simp add: readByte_def tag_defs)

lemma readValue_Object:
  "readValue atoms (tagObject # s) =
     (case readUint32 s of
        Inl e \<Rightarrow> Inl e
      | Inr (n, s2) \<Rightarrow>
          (case readProps atoms n [] s2 of Inl e \<Rightarrow> Inl e | Inr (m, s3) \<Rightarrow> Inr (VMap m, s3)))"
  by (subst readValue.simps) (simp add: readByte_def tag_defs)

lemma readValue_ArrayBuffer:
  "readValue atoms (tagArrayBuffer # s) =
     (case readUint32 s of
        Inl e \<Rightarrow> Inl e
      | Inr (n, s2) \<Rightarrow>
          (case readBytes n s2 of Inl e \<Rightarrow> Inl e | Inr (b, s3) \<Rightarrow> Inr (VUint8s b, s3)))"
  by (subst readValue.simps) (simp add: readByte_def tag_defs)

lemma readValue_Int32:
  "readValue atoms (tagInt32 # s) =
     (case ReadVarint s of
        Inl e \<Rightarrow> Inl e
      | Inr (v, s2) \<Rightarrow>
          if sint v < - (2 ^ 31) \<or> sint v > 2 ^ 31 - 1 then Inl (Overflow_int32 v)
          else Inr (VInt32 (ucast v), s2))"
  by (subst readValue.simps) (simp add: readByte_def tag_defs)

lemma readValue_other:
  "tag \<notin> {tagNull, tagUndefined, tagFalse, tagTrue, tagInt32, tagFloat64, tagString, tagObject,
      tagArray, tagArrayBuffer, tagTypedArray} \<Longrightarrow>
   readValue atoms (tag # s) = Inl (UnsupportedTag tag)"
  by (subst readValue.simps) (simp add: readByte_def)

lemma readValue_TypedArray: "readValue atoms (tagTypedArray # s) = readTypedArray s"
  by (subst readValue.simps) (simp add: readByte_def tag_defs)

lemma readValue_String:
  "readValue atoms (tagString # s) =
     (case readString s of Inl e \<Rightarrow> Inl e | Inr (str, s2) \<Rightarrow> Inr (VString str, s2))"
  by (subst readValue.simps) (simp add: readByte_def tag_defs)

lemma readValue_Float64:
  "readValue atoms (tagFloat64 # s) = binary_Read 8 (\<lambda>bs. VFloat64 (le_word bs)) s"
  by (subst readValue.simps) (simp add: readByte_def tag_defs)

section \<open>Object keys\<close>

lemma decimal_value: "base10_value (decimal n) = n"
proof (induction n rule: decimal.induct)
  case (1 n)
  show ?case
  proof (cases "n < 10")
    case True
    then show ?thesis by (simp add: decimal.simps [of n] base10_value_def)
  next
    case False
    with 1 have "base10_value (decimal (n div 10)) = n div 10" by simp
    with False show ?thesis
      by (simp add: decimal.simps [of n] base10_value_def)
  qed
qed

lemma digit_char: "(k :: nat) < 10 \<Longrightarrow> is_digit (char_of (48 + k))"
  by (simp add: is_digit_def)

lemma decimal_digits: "list_all is_digit (decimal n)"
proof (induction n rule: decimal.induct)
  case (1 n)
  show ?case
  proof (cases "n < 10")
    case True
    then show ?thesis using digit_char [of n] by (simp add: decimal.simps [of n])
  next
    case False
    with 1 have "list_all is_digit (decimal (n div 10))" by simp
    moreover have "is_digit (char_of (48 + n mod 10))"
      by (rule digit_char) simp
    ultimately show ?thesis using False by (simp add: decimal.simps [of n])
  qed
qed

lemma decimal_no_leading_zero: "0 < n \<Longrightarrow> decimal n \<noteq> [] \<and> hd (decimal n) \<noteq> CHR ''0''"
proof (induction n rule: decimal.induct)
  case (1 n)
  show ?case
  proof (cases "n < 10")
    case True
    with "1.prems" have "n \<in> {1, 2, 3, 4, 5, 6, 7, 8, 9}" by auto
    then show ?thesis by (auto simp: decimal.simps [of n] char_of_def)
  next
    case False
    then have "0 < n div 10" by simp
    with 1 False have "decimal (n div 10) \<noteq> [] \<and> hd (decimal (n div 10)) \<noteq> CHR ''0''" by simp
    with False show ?thesis by (simp add: decimal.simps [of n])
  qed
qed

lemma decimal_42: "decimal 42 = ''42''"
  by code_simp


text \<open>
  Claim C7. An object key is read as one varint \<open>k\<close> (and nothing more of the stream).
  When the low bit of \<open>k\<close> is set, the key is the base-10 text of the remaining bits
  \<open>k div 2\<close>: digits only, whose value is that number. When the low bit is clear, the
  remaining bits are a 1-based index into the atom table, and an index of 0 or beyond the
  table fails with \<open>AtomOutOfRange\<close>. So the varint 85, which is 42 tagged, gives the key
  \<open>''42''\<close>.
\<close>

theorem readAtom_key:
  assumes "readUint32 s = Inr (k, s1)"
  shows "(odd k \<longrightarrow>
            readAtom atoms s = Inr (decimal (k div 2), s1) \<and>
            base10_value (decimal (k div 2)) = k div 2 \<and>
            list_all is_digit (decimal (k div 2))) \<and>
         (even k \<and> 1 \<le> k div 2 \<and> k div 2 \<le> length atoms \<longrightarrow>
            readAtom atoms s = Inr (atoms ! (k div 2 - 1), s1)) \<and>
         (even k \<and> (k div 2 = 0 \<or> length atoms < k div 2) \<longrightarrow>
            readAtom atoms s = Inl AtomOutOfRange)"
proof (cases "odd k")
  case True
  then have "k mod 2 = 1" by (simp add: odd_iff_mod_2_eq_one)
  with assms True show ?thesis
    by (simp add: readAtom_def Let_def decimal_value decimal_digits)
next
  case False
  then have "k mod 2 \<noteq> 1" by (simp add: odd_iff_mod_2_eq_one)
  with assms False show ?thesis
    by (simp add: readAtom_def Let_def)
qed

theorem readAtom_key_witness:
  "readUint32 [85, 1] = Inr (85, [1]) \<and> readAtom [''-42''] [85, 1] = Inr (''42'', [1]) \<and>
   readUint32 [2, 1] = Inr (2, [1]) \<and> readAtom [''-42''] [2, 1] = Inr (''-42'', [1]) \<and>
   readUint32 [0, 1] = Inr (0, [1]) \<and> readAtom [''-42''] [0, 1] = Inl AtomOutOfRange \<and>
   readUint32 [4, 1] = Inr (4, [1]) \<and> readAtom [''-42''] [4, 1] = Inl AtomOutOfRange"
  using readAtom_key [of "[85, 1]" 85 "[1]" "[''-42'']"] readAtom_key [of "[2, 1]" 2 "[1]" "[''-42'']"]
    readAtom_key [of "[0, 1]" 0 "[1]" "[''-42'']"] readAtom_key [of "[4, 1]" 4 "[1]" "[''-42'']"]
  by (simp add: readUint32_single decimal_42)

section \<open>Typed arrays\<close>

text \<open>
  Claim C8. A typed array record whose array buffer declares a count \<open>m\<close> other than
  the typed array's own count \<open>n\<close> fails with \<open>SizeMismatch\<close>: the record has an element
  kind, the count \<open>n\<close>, an offset, the tag of an array buffer and the count \<open>m\<close>. The
  kind is looked at only after the counts, so it need not even be valid.
\<close>

theorem typed_array_size_mismatch:
  assumes "readByte s = Inr (kind, s1)"
    and "readUint32 s1 = Inr (n, s2)"
    and "readUint32 s2 = Inr (offset, s3)"
    and "readByte s3 = Inr (tagArrayBuffer, s4)"
    and "readUint32 s4 = Inr (m, s5)"
    and "m \<noteq> n"
  shows "readValue atoms (tagTypedArray # s) = Inl SizeMismatch \<and>
    (readHeader r = Inr (atoms, tagTypedArray # s) \<longrightarrow> ReadValue r = Inl SizeMismatch)"
  using assms
  by (auto simp: readValue_TypedArray readTypedArray_def ReadValue_def)


theorem typed_array_size_mismatch_witness:
  "readByte [2, 1, 0, 15, 2, 42, 43] = Inr (2, [1, 0, 15, 2, 42, 43]) \<and>
   readUint32 [1, 0, 15, 2, 42, 43] = Inr (1, [0, 15, 2, 42, 43]) \<and>
   readUint32 [0, 15, 2, 42, 43] = Inr (0, [15, 2, 42, 43]) \<and>
   readByte [15, 2, 42, 43] = Inr (tagArrayBuffer, [2, 42, 43]) \<and>
   readUint32 [2, 42, 43] = Inr (2, [42, 43]) \<and> (2 :: nat) \<noteq> 1 \<and>
   readValue [] (tagTypedArray # [2, 1, 0, 15, 2, 42, 43]) = Inl SizeMismatch \<and>
   readHeader [12, 0, 14, 2, 1, 0, 15, 2, 42, 43] =
     Inr ([], tagTypedArray # [2, 1, 0, 15, 2, 42, 43]) \<and>
   ReadValue [12, 0, 14, 2, 1, 0, 15, 2, 42, 43] = Inl SizeMismatch"
  using typed_array_size_mismatch [of "[2, 1, 0, 15, 2, 42, 43]" 2 "[1, 0, 15, 2, 42, 43]" 1
      "[0, 15, 2, 42, 43]" 0 "[15, 2, 42, 43]" "[2, 42, 43]" 2 "[42, 43]" "[]"
      "[12, 0, 14, 2, 1, 0, 15, 2, 42, 43]"]
  by (simp add: readByte_def readUint32_single readHeader_def bcVersion_def tag_defs)

section \<open>Short reads\<close>

text \<open>
  \<open>readBytes\<close> asks \<open>Read\<close> once and drops the count: a stream that holds some bytes, but
  fewer than \<open>n\<close>, gives them followed by zeros, and no error. \<open>binary.Read\<close> reads with
  \<open>io.ReadFull\<close>, and a short stream is an error there.
\<close>

lemma readBytes_short:
  "s \<noteq> [] \<Longrightarrow> length s < n \<Longrightarrow> readBytes n s = Inr (s @ replicate (n - length s) 0, [])"
  by (simp add: readBytes_def)

lemma binary_Read_short:
  "length s < k \<Longrightarrow> \<exists>e. binary_Read k dec s = Inl e \<and> StreamTruncated e"
  by (simp add: binary_Read_def ReadFull_def StreamTruncated_def)

text \<open>
  Claim C2 says that a stream holding fewer bytes than a declared length demands always
  fails with a truncation error. The code does not: an array buffer that declares two
  bytes where the stream has one decodes to the byte and a zero, and a narrow string that
  declares two bytes where the stream has one decodes to a string of two bytes, the
  second zero.
\<close>

theorem readBytes_short_read_zero_filled:
  "ReadValue [12, 0, 15, 2, 42] = Inr (VUint8s [42, 0], []) \<and>
   ReadValue [12, 0, 7, 4, 111] = Inr (VString [CHR ''o'', CHR 0x00], [])"
  by code_simp

section \<open>The depth of the recursion\<close>

lemma readElems_one:
  "readElems atoms (Suc 0) s =
     (case readValue atoms s of Inl e \<Rightarrow> Inl e | Inr (v, s1) \<Rightarrow> Inr ([v], s1))"
  by (simp split: sum.splits)

lemma readValue_nested:
  "readValue atoms (nested_stream n @ rest) = Inr (nested_value n, rest)"
proof (induction n)
  case 0
  show ?case by (simp add: readValue_Null)
next
  case (Suc n)
  have "readUint32 (1 # nested_stream n @ rest) = Inr (1, nested_stream n @ rest)"
    using readUint32_single [of 1 "nested_stream n @ rest"] by simp
  with Suc show ?case by (simp add: readValue_Array readElems_one)
qed

lemma ReadValue_nested:
  "ReadValue (bcVersion # 0 # nested_stream n) = Inr (nested_value n, [])"
proof -
  have "readHeader (bcVersion # 0 # nested_stream n) = Inr ([], nested_stream n)"
    using readUint32_single [of 0 "nested_stream n"] by (simp add: readHeader_def readByte_def)
  then show ?thesis using readValue_nested [of "[]" n "[]"] by (simp add: ReadValue_def)
qed

text \<open>
  Claim C1, as amended. The decoder has no bound on the depth of the recursion, no
  counter of the depth and no error for it: arrays nested \<open>n\<close> deep, for every \<open>n\<close> up to
  1001, which is one more than the bound of 1000 that the specification gives as an
  example, decode without an error to the value nested \<open>n\<close> deep.

  Nothing is stated about deeper nesting. The functions above recurse as deep as the
  stream is long; the stack of the Go runtime does not, and a stream nested a million
  levels deep or more can exhaust it, which ends the process and is not an error that
  the call returns.
\<close>

theorem nesting_up_to_1001_decodes:
  "n \<le> 1001 \<Longrightarrow> ReadValue (bcVersion # 0 # nested_stream n) = Inr (nested_value n, [])"
  by (rule ReadValue_nested)

theorem nesting_up_to_1001_decodes_witness:
  "(3 :: nat) \<le> 1001 \<and>
   ReadValue (bcVersion # 0 # nested_stream 3) = Inr (nested_value 3, []) \<and>
   bcVersion # 0 # nested_stream 3 = [12, 0, 9, 1, 9, 1, 9, 1, 1] \<and>
   nested_value 3 = VSlice [VSlice [VSlice [VNil]]]"
  using nesting_up_to_1001_decodes [of 3] by (simp add: numeral_3_eq_3 tag_defs bcVersion_def)

text \<open>
  The claim as stated fails: with the bound of 1000 that the specification gives as an
  example, a stream of arrays nested 1001 deep decodes without an error.
\<close>

theorem depth_1001_decodes:
  "ReadValue (bcVersion # 0 # nested_stream 1001) = Inr (nested_value 1001, [])"
  by (rule ReadValue_nested)

section \<open>Binding a property to a field\<close>

lemma index_of_None: "index_of name pv = None \<longleftrightarrow> name \<notin> fname ` set pv"
  by (induction pv) auto

lemma index_of_Some:
  "index_of name pv = Some i \<Longrightarrow>
     i < length pv \<and> fname (pv ! i) = name \<and> (\<forall>j < i. fname (pv ! j) \<noteq> name)"
proof (induction pv arbitrary: i)
  case Nil
  then show ?case by simp
next
  case (Cons f fs)
  show ?case
  proof (cases "fname f = name")
    case True
    with Cons.prems show ?thesis by simp
  next
    case False
    with Cons.prems obtain i' where i': "index_of name fs = Some i'" "i = Suc i'" by auto
    from Cons.IH [OF i'(1)] False i'(2) show ?thesis
      by (auto simp: nth_Cons split: nat.splits)
  qed
qed

text \<open>
  Claim C4, as amended. A key that is the name of no field is skipped: the record stays
  as it is. A key that is the name of a field selects the first field of that name, by
  equality of the strings. The null value (the nil interface) sets that field to the zero
  value of its type. Every other value, \<open>Undefined\<close> among them, is stored when its type
  is assignable to the field's type, and fails with \<open>TypeMismatch\<close> otherwise. The record
  that results is the supplied one with that one field's value replaced.
\<close>

theorem setField_binds:
  "(name \<notin> fname ` set pv \<longrightarrow> setField pv name v = Inr (pv, False)) \<and>
   (name \<noteq> [] \<and> name \<in> fname ` set pv \<longrightarrow>
      (\<exists>i < length pv. fname (pv ! i) = name \<and> (\<forall>j < i. fname (pv ! j) \<noteq> name) \<and>
         (v = VNil \<longrightarrow>
            setField pv name v = Inr (pv[i := (pv ! i)\<lparr>fvalue := zero (ftype (pv ! i))\<rparr>], True)) \<and>
         (v \<noteq> VNil \<and> assignable (typeOf v) (ftype (pv ! i)) \<longrightarrow>
            setField pv name v = Inr (pv[i := (pv ! i)\<lparr>fvalue := v\<rparr>], True)) \<and>
         (v \<noteq> VNil \<and> \<not> assignable (typeOf v) (ftype (pv ! i)) \<longrightarrow>
            setField pv name v = Inl (TypeMismatch (typeOf v) (ftype (pv ! i))))))"
proof (intro conjI impI)
  assume "name \<notin> fname ` set pv"
  then have "index_of name pv = None" by (simp add: index_of_None)
  then show "setField pv name v = Inr (pv, False)" by (simp add: setField_def FieldByName_def)
next
  assume a: "name \<noteq> [] \<and> name \<in> fname ` set pv"
  then have "index_of name pv \<noteq> None" by (simp add: index_of_None)
  then obtain i where i: "index_of name pv = Some i" by auto
  with a have fb: "FieldByName pv name = Some i" by (simp add: FieldByName_def)
  from index_of_Some [OF i] have p: "i < length pv" "fname (pv ! i) = name"
    "\<forall>j < i. fname (pv ! j) \<noteq> name" by simp_all
  show "\<exists>i < length pv. fname (pv ! i) = name \<and> (\<forall>j < i. fname (pv ! j) \<noteq> name) \<and>
         (v = VNil \<longrightarrow>
            setField pv name v = Inr (pv[i := (pv ! i)\<lparr>fvalue := zero (ftype (pv ! i))\<rparr>], True)) \<and>
         (v \<noteq> VNil \<and> assignable (typeOf v) (ftype (pv ! i)) \<longrightarrow>
            setField pv name v = Inr (pv[i := (pv ! i)\<lparr>fvalue := v\<rparr>], True)) \<and>
         (v \<noteq> VNil \<and> \<not> assignable (typeOf v) (ftype (pv ! i)) \<longrightarrow>
            setField pv name v = Inl (TypeMismatch (typeOf v) (ftype (pv ! i))))"
    using p fb by (intro exI [of _ i]) (simp add: setField_def Let_def)
qed

theorem setField_binds_witness:
  "setField [\<lparr>fname = ''k'', ftype = TInt, fvalue = VInt 42\<rparr>] ''k'' VNil =
     Inr ([\<lparr>fname = ''k'', ftype = TInt, fvalue = VInt 0\<rparr>], True) \<and>
   setField [\<lparr>fname = ''k'', ftype = TAny, fvalue = VNil\<rparr>] ''k'' (VBool True) =
     Inr ([\<lparr>fname = ''k'', ftype = TAny, fvalue = VBool True\<rparr>], True) \<and>
   setField [\<lparr>fname = ''k'', ftype = TInt, fvalue = VInt 42\<rparr>] ''k'' (VBool True) =
     Inl (TypeMismatch TBool TInt) \<and>
   setField [\<lparr>fname = ''k'', ftype = TInt, fvalue = VInt 42\<rparr>] ''j'' (VBool True) =
     Inr ([\<lparr>fname = ''k'', ftype = TInt, fvalue = VInt 42\<rparr>], False)"
  using setField_binds [of "''k''" "[\<lparr>fname = ''k'', ftype = TInt, fvalue = VInt 42\<rparr>]" VNil]
    setField_binds [of "''k''" "[\<lparr>fname = ''k'', ftype = TAny, fvalue = VNil\<rparr>]" "VBool True"]
    setField_binds [of "''k''" "[\<lparr>fname = ''k'', ftype = TInt, fvalue = VInt 42\<rparr>]" "VBool True"]
    setField_binds [of "''j''" "[\<lparr>fname = ''k'', ftype = TInt, fvalue = VInt 42\<rparr>]" "VBool True"]
  by (simp add: assignable_def)

text \<open>
  The claim as stated fails for \<open>Undefined\<close>: it is not turned into the zero value. For
  a field of type \<open>int\<close> the call fails with \<open>TypeMismatch\<close> and the field keeps its value;
  for a field of the empty interface type the field becomes \<open>Undefined\<close>, which is not
  that type's zero value.
\<close>

theorem undefined_is_not_zeroed:
  "ReadObject [12, 1, 2, 107, 8, 1, 2, 2] [\<lparr>fname = ''k'', ftype = TInt, fvalue = VInt 42\<rparr>] =
     ([\<lparr>fname = ''k'', ftype = TInt, fvalue = VInt 42\<rparr>], Some (TypeMismatch TUndefinedValue TInt)) \<and>
   ReadObject [12, 1, 2, 107, 8, 1, 2, 2] [\<lparr>fname = ''k'', ftype = TAny, fvalue = VBool True\<rparr>] =
     ([\<lparr>fname = ''k'', ftype = TAny, fvalue = VUndefined\<rparr>], None) \<and>
   zero TAny \<noteq> VUndefined"
  by code_simp

section \<open>The record after an error\<close>

lemma readFields_decompose:
  "readFields atoms count s pv = bound_until_error pv (decodeProps atoms count s)"
proof (induction count arbitrary: s pv)
  case 0
  show ?case by (simp add: bound_until_error_def)
next
  case (Suc count)
  show ?case
    by (auto simp: Suc bound_until_error_def split: sum.splits prod.splits option.splits)
qed

text \<open>
  Claim C3, as amended. \<open>ReadValue\<close> is all or nothing: when it returns an error, the
  value it returns with it is nil, whatever had been decoded by then. \<open>ReadObject\<close> is
  not: it binds each property to the record of the caller as soon as it has decoded it,
  and nothing is undone. When the error comes before the loop (in the header, the tag or
  the number of properties) the record is as it was supplied; otherwise the record is the
  supplied record with the properties decoded and bound before the first error, of
  decoding or of binding, assigned in the order of the stream, and \<open>ReadObject\<close> returns
  that error: the assignments made before the error stay.
\<close>

theorem ReadValue_whole_ReadObject_partial:
  "(snd (ReadValue_v_err r) \<noteq> None \<longrightarrow> fst (ReadValue_v_err r) = VNil) \<and>
   ReadValue_v_err r =
     (case ReadValue r of Inl e \<Rightarrow> (VNil, Some e) | Inr (v, rest) \<Rightarrow> (v, None)) \<and>
   ReadObject ro pv =
     (case readObjectHead ro of
        Inl e \<Rightarrow> (pv, Some e)
      | Inr ((atoms, count), r3) \<Rightarrow> bound_until_error pv (decodeProps atoms count r3))"
  by (simp add: ReadValue_v_err_def ReadValue_def ReadObject_def readObjectHead_def
      readFields_decompose split: sum.splits prod.splits)

theorem ReadValue_whole_ReadObject_partial_witness:
  "snd (ReadValue_v_err [12, 0, 9, 2, 1]) \<noteq> None \<and>
   ReadValue_v_err [12, 0, 9, 2, 1] = (VNil, Some EOF) \<and>
   ReadValue [12, 0, 9, 2, 1] = Inl EOF \<and>
   readObjectHead [12, 1, 2, 107, 8, 2, 2, 1] = Inr (([''k''], 2), [2, 1]) \<and>
   decodeProps [''k''] 2 [2, 1] = ([(''k'', VNil)], Some EOF) \<and>
   ReadObject [12, 1, 2, 107, 8, 2, 2, 1] [\<lparr>fname = ''k'', ftype = TInt, fvalue = VInt 42\<rparr>] =
     bound_until_error [\<lparr>fname = ''k'', ftype = TInt, fvalue = VInt 42\<rparr>] ([(''k'', VNil)], Some EOF) \<and>
   bound_until_error [\<lparr>fname = ''k'', ftype = TInt, fvalue = VInt 42\<rparr>] ([(''k'', VNil)], Some EOF) =
     ([\<lparr>fname = ''k'', ftype = TInt, fvalue = VInt 0\<rparr>], Some EOF) \<and>
   ReadObject [11] [\<lparr>fname = ''k'', ftype = TInt, fvalue = VInt 42\<rparr>] =
     ([\<lparr>fname = ''k'', ftype = TInt, fvalue = VInt 42\<rparr>], Some (VersionMismatch 11))"
proof -
  have v: "ReadValue_v_err [12, 0, 9, 2, 1] = (VNil, Some EOF)"
    "ReadValue [12, 0, 9, 2, 1] = Inl EOF"
    by code_simp+
  have h: "readObjectHead [12, 1, 2, 107, 8, 2, 2, 1] = Inr (([''k''], 2), [2, 1])"
    "readObjectHead [11] = Inl (VersionMismatch 11)"
    by code_simp+
  have d: "decodeProps [''k''] 2 [2, 1] = ([(''k'', VNil)], Some EOF)"
    by code_simp
  have b: "bound_until_error [\<lparr>fname = ''k'', ftype = TInt, fvalue = VInt 42\<rparr>] ([(''k'', VNil)], Some EOF) =
     ([\<lparr>fname = ''k'', ftype = TInt, fvalue = VInt 0\<rparr>], Some EOF)"
    by code_simp
  from ReadValue_whole_ReadObject_partial
      [of "[12, 0, 9, 2, 1]" "[12, 1, 2, 107, 8, 2, 2, 1]"
        "[\<lparr>fname = ''k'', ftype = TInt, fvalue = VInt 42\<rparr>]"]
    ReadValue_whole_ReadObject_partial
      [of "[11]" "[11]" "[\<lparr>fname = ''k'', ftype = TInt, fvalue = VInt 42\<rparr>]"]
    v h d b
  show ?thesis by simp
qed

text \<open>
  The claim as stated fails: a stream that announces two properties and ends after the
  first, a null for the field \<open>k\<close>, makes \<open>ReadObject\<close> return \<open>io.EOF\<close> with the field
  already set to zero.
\<close>

theorem partial_record_after_error:
  "ReadObject [12, 1, 2, 107, 8, 2, 2, 1] [\<lparr>fname = ''k'', ftype = TInt, fvalue = VInt 42\<rparr>] =
     ([\<lparr>fname = ''k'', ftype = TInt, fvalue = VInt 0\<rparr>], Some EOF)"
  by code_simp


section \<open>Bytes after the value\<close>

text \<open>
  A reader that has left bytes unread has looked at nothing but the bytes it has read.
  The condition is that bytes are left: \<open>readBytes\<close> at the very end of a stream may have
  filled its buffer with zeros (see the section on short reads).
\<close>

lemma readsI: "s = p @ s' \<Longrightarrow> (\<And>t. f (p @ t) = Inr (x, t)) \<Longrightarrow> reads f s x s'"
  by (auto simp: reads_def)

lemma reads_length: "reads f s x s' \<Longrightarrow> length s' \<le> length s"
  by (auto simp: reads_def)

lemma reads_pure: "(\<And>t. h t = Inr (y, t)) \<Longrightarrow> reads h s y s"
  by (rule readsI [of _ "[]"]) simp_all

lemma reads_seq:
  assumes f: "reads f s x sm"
    and h: "reads (h x) sm y se"
    and g: "\<And>r. g r = (case f r of Inl e \<Rightarrow> Inl e | Inr (x, r1) \<Rightarrow> h x r1)"
  shows "reads g s y se"
proof -
  from f obtain p1 where p1: "s = p1 @ sm" "\<And>t. f (p1 @ t) = Inr (x, t)"
    by (auto simp: reads_def)
  from h obtain p2 where p2: "sm = p2 @ se" "\<And>t. h x (p2 @ t) = Inr (y, t)"
    by (auto simp: reads_def)
  show ?thesis
  proof (rule readsI [of _ "p1 @ p2"])
    show "s = (p1 @ p2) @ se" using p1(1) p2(1) by simp
    fix t
    show "g ((p1 @ p2) @ t) = Inr (y, t)"
      using p1(2) [of "p2 @ t"] p2(2) [of t] by (simp add: g)
  qed
qed

lemma reads_cons:
  assumes g: "\<And>r. g (b # r) = f r" and f: "reads f s x s'"
  shows "reads g (b # s) x s'"
proof -
  from f obtain p where p: "s = p @ s'" "\<And>t. f (p @ t) = Inr (x, t)"
    by (auto simp: reads_def)
  show ?thesis
  proof (rule readsI [of _ "b # p"])
    show "b # s = (b # p) @ s'" using p(1) by simp
    fix t show "g ((b # p) @ t) = Inr (x, t)" using p(2) [of t] by (simp add: g)
  qed
qed

lemma reads_cong: "(\<And>r. g r = f r) \<Longrightarrow> reads f s x s' \<Longrightarrow> reads g s x s'"
  by (auto simp: reads_def)

lemma reads_readByte: "readByte s = Inr (b, s') \<Longrightarrow> reads readByte s b s'"
  by (auto simp: readByte_def split: list.splits intro!: readsI [of _ "[b]"])

lemma reads_ReadUvarint_loop:
  "ReadUvarint_loop i x sh s = Inr (v, s') \<Longrightarrow> reads (ReadUvarint_loop i x sh) s v s'"
proof (induction i x sh s rule: ReadUvarint_loop.induct)
  case (1 i x sh s)
  from "1.prems" obtain b rest where s: "s = b # rest" and i: "i < 10"
    by (cases s) (auto simp: ReadUvarint_loop.simps [of i x sh] split: if_splits)
  show ?case
  proof (cases "b < 0x80")
    case True
    with "1.prems" s i have r: "s' = rest" "v = x OR push_bit sh (ucast b)" "\<not> (i = 9 \<and> b > 1)"
      by (auto simp: ReadUvarint_loop.simps [of i x sh "b # rest"] split: if_splits)
    show ?thesis
    proof (rule readsI [of _ "[b]"])
      show "s = [b] @ s'" using s r by simp
      fix t show "ReadUvarint_loop i x sh ([b] @ t) = Inr (v, t)"
        using True i r by (simp add: ReadUvarint_loop.simps [of i x sh "b # t"])
    qed
  next
    case False
    let ?x = "x OR push_bit sh (ucast (b AND 0x7f))"
    from "1.prems" s i False have "ReadUvarint_loop (i + 1) ?x (sh + 7) rest = Inr (v, s')"
      by (simp add: ReadUvarint_loop.simps [of i x sh "b # rest"])
    with "1.IH" [of b rest] i s False have "reads (ReadUvarint_loop (i + 1) ?x (sh + 7)) rest v s'"
      by simp
    moreover have "ReadUvarint_loop i x sh (b # r) = ReadUvarint_loop (i + 1) ?x (sh + 7) r" for r
      using i False by (simp add: ReadUvarint_loop.simps [of i x sh "b # r"])
    ultimately show ?thesis unfolding s by (intro reads_cons)
  qed
qed

lemma reads_ReadUvarint: "ReadUvarint s = Inr (v, s') \<Longrightarrow> reads ReadUvarint s v s'"
  using reads_ReadUvarint_loop [of 0 0 0 s v s']
  by (auto simp: ReadUvarint_def [abs_def])

lemma reads_readUint32: "readUint32 s = Inr (n, s') \<Longrightarrow> reads readUint32 s n s'"
proof -
  assume a: "readUint32 s = Inr (n, s')"
  then obtain v where v: "ReadUvarint s = Inr (v, s')" "\<not> (v > 0xFFFFFFFF \<or> v > 0x7FFFFFFFFFFFFFFF)" "n = unat v"
    by (auto simp: readUint32_def split: sum.splits if_splits)
  show ?thesis
  proof (rule reads_seq [where f = ReadUvarint and x = v and sm = s'
        and h = "\<lambda>v r. if v > 0xFFFFFFFF \<or> v > 0x7FFFFFFFFFFFFFFF then Inl (Overflow_uint32 v) else Inr (unat v, r)"])
    show "reads ReadUvarint s v s'" using v(1) by (rule reads_ReadUvarint)
    show "reads (\<lambda>r. if v > 0xFFFFFFFF \<or> v > 0x7FFFFFFFFFFFFFFF then Inl (Overflow_uint32 v) else Inr (unat v, r)) s' n s'"
      using v by (intro reads_pure) simp
  qed (simp add: readUint32_def split: sum.splits)
qed


lemma reads_seqI:
  assumes g: "\<And>r. g r = (case f r of Inl e \<Rightarrow> Inl e | Inr (x, r1) \<Rightarrow> h x r1)"
    and res: "g s = Inr (y, se)"
    and ne: "se \<noteq> []"
    and f: "\<And>x sm. f s = Inr (x, sm) \<Longrightarrow> sm \<noteq> [] \<Longrightarrow> reads f s x sm"
    and h: "\<And>x sm. f s = Inr (x, sm) \<Longrightarrow> h x sm = Inr (y, se) \<Longrightarrow> reads (h x) sm y se"
  shows "reads g s y se"
proof -
  from res obtain x sm where fx: "f s = Inr (x, sm)" and hx: "h x sm = Inr (y, se)"
    by (auto simp: g split: sum.splits)
  from h [OF fx hx] have rh: "reads (h x) sm y se" .
  from reads_length [OF rh] ne have "sm \<noteq> []" by auto
  from f [OF fx this] rh show ?thesis by (rule reads_seq) (rule g)
qed

lemma reads_caseI:
  assumes res: "(case f s of Inl e \<Rightarrow> Inl e | Inr (x, r1) \<Rightarrow> h x r1) = Inr (y, se)"
    and ne: "se \<noteq> []"
    and f: "\<And>x sm. f s = Inr (x, sm) \<Longrightarrow> sm \<noteq> [] \<Longrightarrow> reads f s x sm"
    and h: "\<And>x sm. f s = Inr (x, sm) \<Longrightarrow> h x sm = Inr (y, se) \<Longrightarrow> reads (h x) sm y se"
  shows "reads (\<lambda>r. case f r of Inl e \<Rightarrow> Inl e | Inr (x, r1) \<Rightarrow> h x r1) s y se"
proof (rule reads_seqI [where f = f and h = h
      and g = "\<lambda>r. case f r of Inl e \<Rightarrow> Inl e | Inr (x, r1) \<Rightarrow> h x r1"])
  show "(case f s of Inl e \<Rightarrow> Inl e | Inr (x, r1) \<Rightarrow> h x r1) = Inr (y, se)" by (rule res)
  show "se \<noteq> []" by (rule ne)
qed (simp_all add: f h)

lemma reads_ReadVarint: "ReadVarint s = Inr (v, s') \<Longrightarrow> reads ReadVarint s v s'"
proof -
  assume a: "ReadVarint s = Inr (v, s')"
  then obtain ux where ux: "ReadUvarint s = Inr (ux, s')"
    "v = (if ux AND 1 \<noteq> 0 then NOT (drop_bit 1 ux) else drop_bit 1 ux)"
    by (auto simp: ReadVarint_def Let_def split: sum.splits)
  show ?thesis
  proof (rule reads_seq [where f = ReadUvarint and x = ux and sm = s'
        and h = "\<lambda>ux r. Inr (if ux AND 1 \<noteq> 0 then NOT (drop_bit 1 ux) else drop_bit 1 ux, r)"])
    show "reads ReadUvarint s ux s'" using ux(1) by (rule reads_ReadUvarint)
    show "reads (\<lambda>r. Inr (if ux AND 1 \<noteq> 0 then NOT (drop_bit 1 ux) else drop_bit 1 ux, r)) s' v s'"
      using ux by (intro reads_pure) simp
  qed (simp add: ReadVarint_def Let_def split: sum.splits)
qed

lemma reads_readBytes:
  "readBytes n s = Inr (b, s') \<Longrightarrow> s' \<noteq> [] \<Longrightarrow> reads (readBytes n) s b s'"
proof -
  assume a: "readBytes n s = Inr (b, s')" and ne: "s' \<noteq> []"
  then have s': "s' = drop n s" and n: "n < length s" and b: "b = take n s"
    by (auto simp: readBytes_def split: if_splits)
  show ?thesis
  proof (rule readsI [of _ "take n s"])
    show "s = take n s @ s'" using s' by simp
    fix t
    from n have "length (take n s) = n" by simp
    moreover from n have "n > 0 \<longrightarrow> take n s \<noteq> []" by auto
    ultimately show "readBytes n (take n s @ t) = Inr (b, t)"
      using b by (auto simp: readBytes_def)
  qed
qed

lemma reads_ReadFull: "ReadFull k s = Inr (b, s') \<Longrightarrow> reads (ReadFull k) s b s'"
proof -
  assume a: "ReadFull k s = Inr (b, s')"
  then have s': "s' = drop k s" and k: "k \<le> length s" and b: "b = take k s"
    by (auto simp: ReadFull_def split: if_splits)
  show ?thesis
  proof (rule readsI [of _ "take k s"])
    show "s = take k s @ s'" using s' by simp
    fix t
    from k have "length (take k s) = k" by simp
    then show "ReadFull k (take k s @ t) = Inr (b, t)"
      using b by (simp add: ReadFull_def)
  qed
qed

lemma reads_binary_Read:
  "binary_Read k dec s = Inr (x, s') \<Longrightarrow> reads (binary_Read k dec) s x s'"
proof -
  assume a: "binary_Read k dec s = Inr (x, s')"
  then obtain bs where bs: "ReadFull k s = Inr (bs, s')" "x = dec bs"
    by (auto simp: binary_Read_def split: sum.splits)
  show ?thesis
  proof (rule reads_seq [where f = "ReadFull k" and x = bs and sm = s'
        and h = "\<lambda>bs r. Inr (dec bs, r)"])
    show "reads (ReadFull k) s bs s'" using bs(1) by (rule reads_ReadFull)
    show "reads (\<lambda>r. Inr (dec bs, r)) s' x s'" using bs by (intro reads_pure) simp
  qed (simp add: binary_Read_def split: sum.splits)
qed

lemma reads_readBytes_map:
  assumes "(case readBytes n s of Inl e \<Rightarrow> Inl e | Inr (b, s2) \<Rightarrow> Inr (k b, s2)) = Inr (x, s')"
    and "s' \<noteq> []"
  shows "reads (\<lambda>r. case readBytes n r of Inl e \<Rightarrow> Inl e | Inr (b, s2) \<Rightarrow> Inr (k b, s2)) s x s'"
proof -
  from assms obtain b where b: "readBytes n s = Inr (b, s')" "x = k b"
    by (auto split: sum.splits)
  show ?thesis
  proof (rule reads_seq [where f = "readBytes n" and x = b and sm = s'
        and h = "\<lambda>b r. Inr (k b, r)"])
    show "reads (readBytes n) s b s'" using b(1) assms(2) by (rule reads_readBytes)
    show "reads (\<lambda>r. Inr (k b, r)) s' x s'" using b by (intro reads_pure) simp
  qed simp
qed

lemma reads_readString:
  "readString s = Inr (str, s') \<Longrightarrow> s' \<noteq> [] \<Longrightarrow> reads readString s str s'"
proof (rule reads_seqI [where f = readUint32 and h = "\<lambda>n0 s1.
      if n0 mod 2 = 1 then
        binary_Read (2 * (n0 div 2)) (\<lambda>bs. string_of_runes (utf16_Decode (le_words16 bs))) s1
      else (case readBytes (n0 div 2) s1 of Inl e \<Rightarrow> Inl e
            | Inr (b, s2) \<Rightarrow> Inr (string_of_bytes b, s2))"])
  show "readString r = (case readUint32 r of Inl e \<Rightarrow> Inl e | Inr (n0, s1) \<Rightarrow>
      if n0 mod 2 = 1 then
        binary_Read (2 * (n0 div 2)) (\<lambda>bs. string_of_runes (utf16_Decode (le_words16 bs))) s1
      else (case readBytes (n0 div 2) s1 of Inl e \<Rightarrow> Inl e
            | Inr (b, s2) \<Rightarrow> Inr (string_of_bytes b, s2)))" for r
    by (simp add: readString_def Let_def split: sum.splits)
next
  fix n0 sm
  assume ne: "s' \<noteq> []"
  assume "(if n0 mod 2 = 1 then
        binary_Read (2 * (n0 div 2)) (\<lambda>bs. string_of_runes (utf16_Decode (le_words16 bs))) sm
      else (case readBytes (n0 div 2) sm of Inl e \<Rightarrow> Inl e
            | Inr (b, s2) \<Rightarrow> Inr (string_of_bytes b, s2))) = Inr (str, s')"
  then show "reads (\<lambda>r. if n0 mod 2 = 1 then
        binary_Read (2 * (n0 div 2)) (\<lambda>bs. string_of_runes (utf16_Decode (le_words16 bs))) r
      else (case readBytes (n0 div 2) r of Inl e \<Rightarrow> Inl e
            | Inr (b, s2) \<Rightarrow> Inr (string_of_bytes b, s2))) sm str s'"
    using ne by (cases "n0 mod 2 = 1") (simp_all add: reads_binary_Read reads_readBytes_map)
qed (simp_all add: reads_readUint32)

lemma reads_readAtom: "readAtom atoms s = Inr (a, s') \<Longrightarrow> reads (readAtom atoms) s a s'"
proof -
  assume a: "readAtom atoms s = Inr (a, s')"
  let ?h = "\<lambda>idx0 r. if idx0 mod 2 = 1 then Inr (decimal (idx0 div 2), r)
      else if idx0 div 2 > 0 \<and> idx0 div 2 \<le> length atoms then Inr (atoms ! (idx0 div 2 - 1), r)
      else Inl AtomOutOfRange"
  from a obtain idx0 where i: "readUint32 s = Inr (idx0, s')" "?h idx0 s' = Inr (a, s')"
    by (auto simp: readAtom_def Let_def split: sum.splits if_splits)
  show ?thesis
  proof (rule reads_seq [where f = readUint32 and x = idx0 and sm = s' and h = ?h])
    show "reads readUint32 s idx0 s'" using i(1) by (rule reads_readUint32)
    show "reads (?h idx0) s' a s'" using i(2) by (intro reads_pure) (auto split: if_splits)
  qed (simp add: readAtom_def Let_def split: sum.splits)
qed


lemma readAtoms_length: "readAtoms count s = Inr (atoms, s') \<Longrightarrow> length s' \<le> length s"
proof (induction count arbitrary: s atoms)
  case 0
  then show ?case by simp
next
  case (Suc count)
  from Suc.prems obtain a s1 as where "readString s = Inr (a, s1)"
    "readAtoms count s1 = Inr (as, s')"
    by (auto split: sum.splits)
  with Suc.IH [of s1 as] readString_length [of s a s1] show ?case by simp
qed

lemma reads_readAtoms:
  "readAtoms count s = Inr (atoms, s') \<Longrightarrow> s' \<noteq> [] \<Longrightarrow> reads (readAtoms count) s atoms s'"
proof (induction count arbitrary: s atoms)
  case 0
  then show ?case by (intro readsI [of _ "[]"]) simp_all
next
  case (Suc count)
  let ?h = "\<lambda>a s1. case readAtoms count s1 of Inl e \<Rightarrow> Inl e | Inr (as, s2) \<Rightarrow> Inr (a # as, s2)"
  show ?case
  proof (rule reads_seqI [where f = readString and h = ?h])
    show "readAtoms (Suc count) s = Inr (atoms, s')" by (rule Suc.prems)
    show "s' \<noteq> []" by (rule Suc.prems)
  next
    fix a sm
    assume "?h a sm = Inr (atoms, s')"
    then obtain as where as: "readAtoms count sm = Inr (as, s')" "atoms = a # as"
      by (auto split: sum.splits)
    show "reads (?h a) sm atoms s'"
    proof (rule reads_seq [where f = "readAtoms count" and x = as and sm = s'
          and h = "\<lambda>as r. Inr (a # as, r)"])
      show "reads (readAtoms count) sm as s'" using as(1) Suc.prems(2) by (rule Suc.IH)
      show "reads (\<lambda>r. Inr (a # as, r)) s' atoms s'" using as(2) by (intro reads_pure) simp
    qed simp
  qed (simp_all add: reads_readString)
qed

lemma reads_readHeader:
  "readHeader s = Inr (atoms, s') \<Longrightarrow> s' \<noteq> [] \<Longrightarrow> reads readHeader s atoms s'"
proof -
  assume a: "readHeader s = Inr (atoms, s')" and ne: "s' \<noteq> []"
  let ?h2 = "\<lambda>count s2. readAtoms count s2"
  let ?h1 = "\<lambda>version s1. if version \<noteq> bcVersion then Inl (VersionMismatch version)
      else (case readUint32 s1 of Inl e \<Rightarrow> Inl e | Inr (count, s2) \<Rightarrow> readAtoms count s2)"
  show ?thesis
  proof (rule reads_seqI [where f = readByte and h = ?h1 and g = readHeader])
    show "readHeader s = Inr (atoms, s')" by (rule a)
    show "s' \<noteq> []" by (rule ne)
  next
    fix version sm
    assume h1: "?h1 version sm = Inr (atoms, s')"
    then have v: "version = bcVersion" by (auto split: if_splits)
    with h1 have h1': "(case readUint32 sm of Inl e \<Rightarrow> Inl e | Inr (count, s2) \<Rightarrow> readAtoms count s2) = Inr (atoms, s')"
      by simp
    have "reads (\<lambda>r. case readUint32 r of Inl e \<Rightarrow> Inl e | Inr (count, s2) \<Rightarrow> readAtoms count s2) sm atoms s'"
    proof (rule reads_seqI [where f = readUint32 and h = ?h2])
      show "(case readUint32 sm of Inl e \<Rightarrow> Inl e | Inr (count, s2) \<Rightarrow> readAtoms count s2) = Inr (atoms, s')"
        by (rule h1')
    qed (simp_all add: reads_readUint32 reads_readAtoms ne)
    then show "reads (?h1 version) sm atoms s'" using v by simp
  qed (simp_all add: readHeader_def reads_readByte split: sum.splits)
qed

lemma reads_readElements:
  "readElements kind n s = Inr (v, s') \<Longrightarrow> reads (readElements kind n) s v s'"
  unfolding readElements_def [abs_def]
  by (auto split: if_splits intro: reads_binary_Read)

lemma reads_readTypedArray:
  "readTypedArray s = Inr (v, s') \<Longrightarrow> s' \<noteq> [] \<Longrightarrow> reads readTypedArray s v s'"
proof -
  assume a: "readTypedArray s = Inr (v, s')" and ne: "s' \<noteq> []"
  let ?h5 = "\<lambda>kind n m s5. if n \<noteq> m then Inl SizeMismatch else readElements kind n s5"
  let ?h4 = "\<lambda>kind n t s4. if tagArrayBuffer \<noteq> t then Inl StructuralError
      else (case readUint32 s4 of Inl e \<Rightarrow> Inl e | Inr (m, s5) \<Rightarrow> ?h5 kind n m s5)"
  let ?h3 = "\<lambda>kind n (offset :: nat) s3.
      case readByte s3 of Inl e \<Rightarrow> Inl e | Inr (t, s4) \<Rightarrow> ?h4 kind n t s4"
  let ?h2 = "\<lambda>kind n s2.
      case readUint32 s2 of Inl e \<Rightarrow> Inl e | Inr (offset, s3) \<Rightarrow> ?h3 kind n offset s3"
  let ?h1 = "\<lambda>kind s1.
      case readUint32 s1 of Inl e \<Rightarrow> Inl e | Inr (n, s2) \<Rightarrow> ?h2 kind n s2"
  have r5: "reads (?h5 kind n m) r v s'" if "?h5 kind n m r = Inr (v, s')" for kind n m r
  proof -
    from that have "n = m" "readElements kind n r = Inr (v, s')" by (auto split: if_splits)
    then show ?thesis using reads_readElements [of kind n r v s'] by simp
  qed
  have r4: "reads (?h4 kind n t) r v s'" if "?h4 kind n t r = Inr (v, s')" for kind n t r
  proof -
    from that have t: "t = tagArrayBuffer"
      and c: "(case readUint32 r of Inl e \<Rightarrow> Inl e | Inr (m, s5) \<Rightarrow> ?h5 kind n m s5) = Inr (v, s')"
      by (auto split: if_splits)
    have "reads (\<lambda>r. case readUint32 r of Inl e \<Rightarrow> Inl e | Inr (m, s5) \<Rightarrow> ?h5 kind n m s5) r v s'"
      by (rule reads_caseI [where f = readUint32 and h = "?h5 kind n"])
        (use c ne in \<open>simp_all add: reads_readUint32 r5\<close>)
    with t show ?thesis by simp
  qed
  have r3: "reads (?h3 kind n offset) r v s'" if "?h3 kind n offset r = Inr (v, s')" for kind n and offset :: nat and r
    by (rule reads_caseI [where f = readByte and h = "?h4 kind n"])
      (use that ne in \<open>simp_all add: reads_readByte r4\<close>)
  have r2: "reads (?h2 kind n) r v s'" if "?h2 kind n r = Inr (v, s')" for kind n r
    by (rule reads_caseI [where f = readUint32 and h = "?h3 kind n"])
      (use that ne in \<open>simp_all add: reads_readUint32 r3\<close>)
  have r1: "reads (?h1 kind) r v s'" if "?h1 kind r = Inr (v, s')" for kind r
    by (rule reads_caseI [where f = readUint32 and h = "?h2 kind"])
      (use that ne in \<open>simp_all add: reads_readUint32 r2\<close>)
  show ?thesis
  proof (rule reads_seqI [where f = readByte and h = ?h1 and g = readTypedArray])
    show "readTypedArray s = Inr (v, s')" by (rule a)
    show "s' \<noteq> []" by (rule ne)
  qed (simp_all add: readTypedArray_def reads_readByte r1 split: sum.splits)
qed


lemma reads_const_tag:
  assumes g: "\<And>r. g (b # r) = Inr (c, r)" and res: "g (b # s1) = Inr (v, s')"
  shows "reads g (b # s1) v s'"
proof (rule readsI [of _ "[b]"])
  from res g have "v = c" "s' = s1" by simp_all
  then show "b # s1 = [b] @ s'" and "g ([b] @ t) = Inr (v, t)" for t by (simp_all add: g)
qed

lemma reads_tag:
  assumes g: "\<And>r. g (b # r) = G r"
    and G: "G s1 = Inr (v, s') \<Longrightarrow> reads G s1 v s'"
    and res: "g (b # s1) = Inr (v, s')"
  shows "reads g (b # s1) v s'"
  using res G by (intro reads_cons [where f = G]) (simp_all add: g)

lemma reads_readValue:
  "readValue atoms s = Inr (v, s') \<Longrightarrow> s' \<noteq> [] \<Longrightarrow> reads (readValue atoms) s v s'"
  "readProps atoms n m s = Inr (m', s') \<Longrightarrow> s' \<noteq> [] \<Longrightarrow> reads (readProps atoms n m) s m' s'"
  "readElems atoms n s = Inr (vs, s') \<Longrightarrow> s' \<noteq> [] \<Longrightarrow> reads (readElems atoms n) s vs s'"
proof (induction atoms s and atoms n m s and atoms n s arbitrary: v s' and m' s' and vs s'
    rule: readValue_readProps_readElems.induct)
  case (1 atoms s)
  note res = "1.prems"(1) and ne = "1.prems"(2)
  from res obtain tag s1 where s: "s = tag # s1"
    by (cases s) (auto simp: readValue.simps [of atoms] readByte_def)
  have rb: "readByte s = Inr (tag, s1)" using s by (simp add: readByte_def)
  note res' = res [unfolded s]
  consider (null) "tag = tagNull" | (undef) "tag = tagUndefined" | (false) "tag = tagFalse"
    | (true) "tag = tagTrue" | (int32) "tag = tagInt32" | (float64) "tag = tagFloat64"
    | (string) "tag = tagString" | (object) "tag = tagObject" | (array) "tag = tagArray"
    | (buffer) "tag = tagArrayBuffer" | (typed) "tag = tagTypedArray"
    | (other) "tag \<notin> {tagNull, tagUndefined, tagFalse, tagTrue, tagInt32, tagFloat64, tagString,
        tagObject, tagArray, tagArrayBuffer, tagTypedArray}"
    by auto
  then show ?case unfolding s
  proof cases
    case null
    with res' show "reads (readValue atoms) (tag # s1) v s'"
      by (intro reads_const_tag [where c = VNil]) (simp_all add: readValue_Null)
  next
    case undef
    with res' show "reads (readValue atoms) (tag # s1) v s'"
      by (intro reads_const_tag [where c = VUndefined]) (simp_all add: readValue_Undefined)
  next
    case false
    with res' show "reads (readValue atoms) (tag # s1) v s'"
      by (intro reads_const_tag [where c = "VBool False"]) (simp_all add: readValue_False)
  next
    case true
    with res' show "reads (readValue atoms) (tag # s1) v s'"
      by (intro reads_const_tag [where c = "VBool True"]) (simp_all add: readValue_True)
  next
    case int32
    let ?h = "\<lambda>v s2. if sint v < - (2 ^ 31) \<or> sint v > 2 ^ 31 - 1 then Inl (Overflow_int32 v)
          else Inr (VInt32 (ucast (v :: 64 word)), s2)"
    let ?G = "\<lambda>r. case ReadVarint r of Inl e \<Rightarrow> Inl e | Inr (v, s2) \<Rightarrow> ?h v s2"
    have h: "reads (?h x) sm v s'" if "?h x sm = Inr (v, s')" for x sm
    proof -
      from that have "\<not> (sint x < - (2 ^ 31) \<or> sint x > 2 ^ 31 - 1)" "v = VInt32 (ucast x)" "s' = sm"
        by (auto split: if_splits)
      then show ?thesis by (auto intro!: reads_pure)
    qed
    show "reads (readValue atoms) (tag # s1) v s'"
    proof (rule reads_tag [where G = ?G and g = "readValue atoms", OF _ _ res'])
      show "readValue atoms (tag # r) = ?G r" for r unfolding int32 by (rule readValue_Int32)
      assume G: "?G s1 = Inr (v, s')"
      show "reads ?G s1 v s'"
      proof (rule reads_caseI [where f = ReadVarint and h = ?h])
        show "(case ReadVarint s1 of Inl e \<Rightarrow> Inl e | Inr (v, s2) \<Rightarrow> ?h v s2) = Inr (v, s')"
          by (rule G)
        show "s' \<noteq> []" by (rule ne)
        show "reads ReadVarint s1 x sm" if "ReadVarint s1 = Inr (x, sm)" for x sm
          using that by (rule reads_ReadVarint)
        show "reads (?h x) sm v s'" if "?h x sm = Inr (v, s')" for x sm
          using that by (rule h)
      qed
    qed
  next
    case float64
    show "reads (readValue atoms) (tag # s1) v s'"
      by (rule reads_tag [where G = "binary_Read 8 (\<lambda>bs. VFloat64 (le_word bs))" and g = "readValue atoms", OF _ _ res'])
        (simp_all add: float64 readValue_Float64 reads_binary_Read)
  next
    case string
    let ?h = "\<lambda>str s2. Inr (VString str, s2)"
    let ?G = "\<lambda>r. case readString r of Inl e \<Rightarrow> Inl e | Inr (str, s2) \<Rightarrow> ?h str s2"
    show "reads (readValue atoms) (tag # s1) v s'"
    proof (rule reads_tag [where G = ?G and g = "readValue atoms", OF _ _ res'])
      show "readValue atoms (tag # r) = ?G r" for r unfolding string by (rule readValue_String)
      assume "?G s1 = Inr (v, s')"
      then show "reads ?G s1 v s'"
        by (intro reads_caseI [where f = readString and h = ?h])
          (auto simp: ne reads_readString intro: reads_pure)
    qed
  next
    case object
    let ?h2 = "\<lambda>m s3. Inr (VMap m, s3)"
    let ?h = "\<lambda>n s2. case readProps atoms n [] s2 of Inl e \<Rightarrow> Inl e | Inr (m, s3) \<Rightarrow> ?h2 m s3"
    let ?G = "\<lambda>r. case readUint32 r of Inl e \<Rightarrow> Inl e | Inr (n, s2) \<Rightarrow> ?h n s2"
    have tags: "tag \<noteq> tagNull" "tag \<noteq> tagUndefined" "tag \<noteq> tagFalse" "tag \<noteq> tagTrue"
      "tag \<noteq> tagInt32" "tag \<noteq> tagFloat64" "tag \<noteq> tagString"
      using object by (simp_all add: tag_defs)
    have h: "reads (?h n) sm v s'" if "readUint32 s1 = Inr (n, sm)" "?h n sm = Inr (v, s')" for n sm
    proof (rule reads_caseI [where f = "readProps atoms n []" and h = ?h2])
      show "(case readProps atoms n [] sm of Inl e \<Rightarrow> Inl e | Inr (m, s3) \<Rightarrow> ?h2 m s3) = Inr (v, s')"
        by (rule that)
      show "s' \<noteq> []" by (rule ne)
      show "reads (readProps atoms n []) sm x sa" if "readProps atoms n [] sm = Inr (x, sa)" "sa \<noteq> []" for x sa
        using "1.IH"(1) [OF rb refl tags object \<open>readUint32 s1 = Inr (n, sm)\<close> refl that] .
      show "reads (?h2 x) sa v s'" if "?h2 x sa = Inr (v, s')" for x sa
        using that by (auto intro: reads_pure)
    qed
    show "reads (readValue atoms) (tag # s1) v s'"
    proof (rule reads_tag [where G = ?G and g = "readValue atoms", OF _ _ res'])
      show "readValue atoms (tag # r) = ?G r" for r unfolding object by (rule readValue_Object)
      assume "?G s1 = Inr (v, s')"
      then show "reads ?G s1 v s'"
        by (intro reads_caseI [where f = readUint32 and h = ?h])
          (simp_all add: ne reads_readUint32 h)
    qed
  next
    case array
    let ?h2 = "\<lambda>vs s3. Inr (VSlice vs, s3)"
    let ?h = "\<lambda>n s2. case readElems atoms n s2 of Inl e \<Rightarrow> Inl e | Inr (vs, s3) \<Rightarrow> ?h2 vs s3"
    let ?G = "\<lambda>r. case readUint32 r of Inl e \<Rightarrow> Inl e | Inr (n, s2) \<Rightarrow> ?h n s2"
    have tags: "tag \<noteq> tagNull" "tag \<noteq> tagUndefined" "tag \<noteq> tagFalse" "tag \<noteq> tagTrue"
      "tag \<noteq> tagInt32" "tag \<noteq> tagFloat64" "tag \<noteq> tagString" "tag \<noteq> tagObject"
      using array by (simp_all add: tag_defs)
    have h: "reads (?h n) sm v s'" if "readUint32 s1 = Inr (n, sm)" "?h n sm = Inr (v, s')" for n sm
    proof (rule reads_caseI [where f = "readElems atoms n" and h = ?h2])
      show "(case readElems atoms n sm of Inl e \<Rightarrow> Inl e | Inr (vs, s3) \<Rightarrow> ?h2 vs s3) = Inr (v, s')"
        by (rule that)
      show "s' \<noteq> []" by (rule ne)
      show "reads (readElems atoms n) sm x sa" if "readElems atoms n sm = Inr (x, sa)" "sa \<noteq> []" for x sa
        using "1.IH"(2) [OF rb refl tags array \<open>readUint32 s1 = Inr (n, sm)\<close> refl that] .
      show "reads (?h2 x) sa v s'" if "?h2 x sa = Inr (v, s')" for x sa
        using that by (auto intro: reads_pure)
    qed
    show "reads (readValue atoms) (tag # s1) v s'"
    proof (rule reads_tag [where G = ?G and g = "readValue atoms", OF _ _ res'])
      show "readValue atoms (tag # r) = ?G r" for r unfolding array by (rule readValue_Array)
      assume "?G s1 = Inr (v, s')"
      then show "reads ?G s1 v s'"
        by (intro reads_caseI [where f = readUint32 and h = ?h])
          (simp_all add: ne reads_readUint32 h)
    qed
  next
    case buffer
    let ?h = "\<lambda>n s2. case readBytes n s2 of Inl e \<Rightarrow> Inl e | Inr (b, s3) \<Rightarrow> Inr (VUint8s b, s3)"
    let ?G = "\<lambda>r. case readUint32 r of Inl e \<Rightarrow> Inl e | Inr (n, s2) \<Rightarrow> ?h n s2"
    show "reads (readValue atoms) (tag # s1) v s'"
    proof (rule reads_tag [where G = ?G and g = "readValue atoms", OF _ _ res'])
      show "readValue atoms (tag # r) = ?G r" for r unfolding buffer by (rule readValue_ArrayBuffer)
      assume "?G s1 = Inr (v, s')"
      then show "reads ?G s1 v s'"
        by (intro reads_caseI [where f = readUint32 and h = ?h])
          (simp_all add: ne reads_readUint32 reads_readBytes_map)
    qed
  next
    case typed
    show "reads (readValue atoms) (tag # s1) v s'"
      by (rule reads_tag [where G = readTypedArray and g = "readValue atoms", OF _ _ res'])
        (simp_all add: typed readValue_TypedArray reads_readTypedArray ne)
  next
    case other
    with res' show "reads (readValue atoms) (tag # s1) v s'"
      by (simp add: readValue_other)
  qed
next
  case (2 atoms m s)
  then show ?case by (intro readsI [of _ "[]"]) simp_all
next
  case (3 atoms n m s)
  let ?h2 = "\<lambda>atom v s2. readProps atoms n (AList.update atom v m) s2"
  let ?h = "\<lambda>atom s1. case readValue atoms s1 of Inl e \<Rightarrow> Inl e | Inr (v, s2) \<Rightarrow> ?h2 atom v s2"
  show ?case
  proof (rule reads_seqI [where f = "readAtom atoms" and h = ?h and g = "readProps atoms (Suc n) m"])
    show "readProps atoms (Suc n) m s = Inr (m', s')" by (rule "3.prems")
    show "s' \<noteq> []" by (rule "3.prems")
    show "reads (readAtom atoms) s x sm" if "readAtom atoms s = Inr (x, sm)" for x sm
      using that by (rule reads_readAtom)
    show "reads (?h atom) sm m' s'" if ra: "readAtom atoms s = Inr (atom, sm)"
      and "?h atom sm = Inr (m', s')" for atom sm
    proof (rule reads_caseI [where f = "readValue atoms" and h = "?h2 atom"])
      show "(case readValue atoms sm of Inl e \<Rightarrow> Inl e | Inr (v, s2) \<Rightarrow> ?h2 atom v s2) = Inr (m', s')"
        by (rule that)
      show "s' \<noteq> []" by (rule "3.prems")
      show "reads (readValue atoms) sm x sa" if "readValue atoms sm = Inr (x, sa)" "sa \<noteq> []" for x sa
        using "3.IH"(1) [OF ra refl that] .
      show "reads (?h2 atom x) sa m' s'" if "readValue atoms sm = Inr (x, sa)" "?h2 atom x sa = Inr (m', s')" for x sa
        using "3.IH"(2) [OF ra refl that(1) refl that(2) "3.prems"(2)] .
    qed
  qed simp
next
  case (4 atoms s)
  then show ?case by (intro readsI [of _ "[]"]) simp_all
next
  case (5 atoms n s)
  let ?h2 = "\<lambda>v vs s2. Inr (v # vs, s2)"
  let ?h = "\<lambda>v s1. case readElems atoms n s1 of Inl e \<Rightarrow> Inl e | Inr (vs, s2) \<Rightarrow> ?h2 v vs s2"
  show ?case
  proof (rule reads_seqI [where f = "readValue atoms" and h = ?h and g = "readElems atoms (Suc n)"])
    show "readElems atoms (Suc n) s = Inr (vs, s')" by (rule "5.prems")
    show "s' \<noteq> []" by (rule "5.prems")
    show "reads (readValue atoms) s x sm" if "readValue atoms s = Inr (x, sm)" "sm \<noteq> []" for x sm
      using "5.IH"(1) [OF that] .
    show "reads (?h x) sm vs s'" if rv: "readValue atoms s = Inr (x, sm)"
      and "?h x sm = Inr (vs, s')" for x sm
    proof (rule reads_caseI [where f = "readElems atoms n" and h = "?h2 x"])
      show "(case readElems atoms n sm of Inl e \<Rightarrow> Inl e | Inr (vs, s2) \<Rightarrow> ?h2 x vs s2) = Inr (vs, s')"
        by (rule that)
      show "s' \<noteq> []" by (rule "5.prems")
      show "reads (readElems atoms n) sm y sa" if "readElems atoms n sm = Inr (y, sa)" "sa \<noteq> []" for y sa
        using "5.IH"(2) [OF rv refl that] .
      show "reads (?h2 x y) sa vs s'" if "?h2 x y sa = Inr (vs, s')" for y sa
        using that by (auto intro: reads_pure)
    qed
  qed simp
qed


lemma reads_ReadValue:
  assumes "ReadValue r = Inr (v, rest)" and "rest \<noteq> []"
  shows "reads ReadValue r v rest"
proof (rule reads_seqI [where f = readHeader and h = readValue and g = ReadValue])
  show "ReadValue r = Inr (v, rest)" by (rule assms)
  show "rest \<noteq> []" by (rule assms)
qed (simp_all add: ReadValue_def reads_readHeader reads_readValue(1) assms(2) split: sum.splits)

text \<open>
  So a call of \<open>ReadValue\<close> that stops before the end of the stream, at the end of a
  prefix \<open>p\<close>, gives the same value on \<open>p\<close> alone and on \<open>p\<close> followed by any bytes
  whatever, which it leaves unread. What follows shows that the condition cannot be
  dropped.
\<close>

lemma stop_before_end_ignores_rest:
  assumes "ReadValue (p @ rest) = Inr (v, rest)" and "rest \<noteq> []"
  shows "ReadValue p = Inr (v, []) \<and> ReadValue (p @ t) = Inr (v, t)"
proof -
  from reads_ReadValue [OF assms] obtain p' where p': "p @ rest = p' @ rest"
    and all: "\<And>t. ReadValue (p' @ t) = Inr (v, t)"
    by (auto simp: reads_def)
  from p' have "p' = p" by simp
  with all [of t] all [of "[]"] show ?thesis by simp
qed

lemma stop_before_end_ignores_rest_example:
  "ReadValue ([12, 0, 9, 1, 1] @ [7]) = Inr (VSlice [VNil], [7]) \<and> [7 :: byte] \<noteq> [] \<and>
   ReadValue [12, 0, 9, 1, 1] = Inr (VSlice [VNil], []) \<and>
   ReadValue ([12, 0, 9, 1, 1] @ [255, 255]) = Inr (VSlice [VNil], [255, 255])"
proof -
  have h: "ReadValue ([12, 0, 9, 1, 1] @ [7]) = Inr (VSlice [VNil], [7])" by code_simp
  have n: "[7 :: byte] \<noteq> []" by simp
  from stop_before_end_ignores_rest [OF h n, of "[255, 255]"] h n show ?thesis by simp
qed


section \<open>The round trip\<close>

text \<open>
  The little-endian bytes of an element decode to the element, the varint that
  \<open>PutUvarint\<close> writes for a count below \<open>2 ^ 32\<close> is read back by \<open>readUint32\<close>, and a typed
  array that \<open>writeTypedArray\<close> has written is read back by \<open>readValue\<close>.
\<close>

lemma ucast_ucast_byte: "(ucast (ucast (w :: 'a::len word) :: byte) :: 'a word) = take_bit 8 w"
  by (rule bit_word_eqI) (auto simp: bit_simps)

lemma le_word_le_bytes: "(le_word (le_bytes k w) :: 'a::len word) = take_bit (8 * k) w"
proof (induction k arbitrary: w)
  case 0
  show ?case by simp
next
  case (Suc k)
  have "(le_word (le_bytes (Suc k) w) :: 'a word) =
      take_bit 8 w OR push_bit 8 (take_bit (8 * k) (drop_bit 8 w))"
    by (simp add: Suc ucast_ucast_byte)
  also have "\<dots> = take_bit (8 * Suc k) w"
    by (rule bit_word_eqI) (auto simp: bit_simps)
  finally show ?case .
qed

lemma le_word_le_bytes_2: "le_word (le_bytes 2 (w :: 16 word)) = w"
  by (simp add: le_word_le_bytes take_bit_word_eq_self)

lemma le_word_le_bytes_4: "le_word (le_bytes 4 (w :: 32 word)) = w"
  by (simp add: le_word_le_bytes take_bit_word_eq_self)

lemma le_word_le_bytes_8: "le_word (le_bytes 8 (w :: 64 word)) = w"
  by (simp add: le_word_le_bytes take_bit_word_eq_self)

lemma le_bytes_2: "le_bytes 2 w = [ucast w, ucast (drop_bit 8 w)]"
  by (simp add: numeral_2_eq_2)

lemma le_words16_encode: "le_words16 (concat (map (le_bytes 2) t)) = t"
proof (induction t)
  case Nil
  show ?case by simp
next
  case (Cons w t)
  have "le_word [ucast w, ucast (drop_bit 8 w)] = w"
    using le_word_le_bytes_2 [of w] by (simp only: le_bytes_2)
  with Cons show ?case by (simp add: le_bytes_2 del: le_word.simps)
qed

lemma le_bytes_4: "le_bytes 4 w = [ucast w, ucast (drop_bit 8 w), ucast (drop_bit 8 (drop_bit 8 w)),
    ucast (drop_bit 8 (drop_bit 8 (drop_bit 8 w)))]"
  by (simp add: numeral_eq_Suc)

lemma le_bytes_8: "le_bytes 8 w = [ucast w, ucast (drop_bit 8 w), ucast (drop_bit 8 (drop_bit 8 w)),
    ucast (drop_bit 8 (drop_bit 8 (drop_bit 8 w))),
    ucast (drop_bit 8 (drop_bit 8 (drop_bit 8 (drop_bit 8 w)))),
    ucast (drop_bit 8 (drop_bit 8 (drop_bit 8 (drop_bit 8 (drop_bit 8 w))))),
    ucast (drop_bit 8 (drop_bit 8 (drop_bit 8 (drop_bit 8 (drop_bit 8 (drop_bit 8 w)))))),
    ucast (drop_bit 8 (drop_bit 8 (drop_bit 8 (drop_bit 8 (drop_bit 8 (drop_bit 8 (drop_bit 8 w)))))))]"
  by (simp add: numeral_eq_Suc)

lemma le_words32_encode: "le_words32 (concat (map (le_bytes 4) t)) = t"
proof (induction t)
  case Nil
  show ?case by simp
next
  case (Cons w t)
  have "le_word (le_bytes 4 w) = w" by (rule le_word_le_bytes_4)
  with Cons show ?case by (simp add: le_bytes_4 del: le_word.simps)
qed

lemma le_words64_encode: "le_words64 (concat (map (le_bytes 8) t)) = t"
proof (induction t)
  case Nil
  show ?case by simp
next
  case (Cons w t)
  have "le_word (le_bytes 8 w) = w" by (rule le_word_le_bytes_8)
  with Cons show ?case by (simp add: le_bytes_8 del: le_word.simps)
qed

lemma length_encode: "length (concat (map (le_bytes k) (t :: 'a::len word list))) = k * length t"
proof -
  have "length (le_bytes k w) = k" for w :: "'a word"
    by (induction k arbitrary: w) simp_all
  then show ?thesis by (induction t) simp_all
qed

lemma of_nat_split7:
  "push_bit sh (of_nat (x mod 128) :: 64 word) OR push_bit (sh + 7) (of_nat (x div 128)) =
     push_bit sh (of_nat x)"
proof -
  have m: "x mod 128 = take_bit 7 x" by (simp add: take_bit_eq_mod)
  have d: "x div 128 = drop_bit 7 x" by (simp add: drop_bit_eq_div)
  show ?thesis unfolding m d
  proof (rule bit_word_eqI)
    fix n
    assume "n < LENGTH(64)"
    show "bit (push_bit sh (of_nat (take_bit 7 x) :: 64 word) OR
        push_bit (sh + 7) (of_nat (drop_bit 7 x))) n \<longleftrightarrow> bit (push_bit sh (of_nat x :: 64 word)) n"
    proof (cases "n - sh < 7")
      case True
      then show ?thesis by (auto simp: bit_simps)
    next
      case False
      then have "7 + (n - (sh + 7)) = n - sh" "sh + 7 \<le> n" by arith+
      then show ?thesis by (auto simp: bit_simps)
    qed
  qed
qed


lemma byte_of_nat_small: "x < 128 \<Longrightarrow> (of_nat x :: byte) < 0x80"
  by (simp add: word_less_nat_alt unat_of_nat take_bit_nat_eq_self)

lemma bit_small_nat: "(x :: nat) < 2 ^ k \<Longrightarrow> bit x n \<Longrightarrow> n < k"
proof (rule ccontr)
  assume x: "x < 2 ^ k" and b: "bit x n" and "\<not> n < k"
  then have "(2 :: nat) ^ k \<le> 2 ^ n" by (simp add: power_increasing)
  with x have "x < 2 ^ n" by (rule less_le_trans)
  then have "x div 2 ^ n = 0" by simp
  with b show False by (simp add: bit_iff_odd)
qed

lemma ucast_byte_of_nat:
  assumes "x < 128"
  shows "(ucast (of_nat x :: byte) :: 64 word) = of_nat x"
proof -
  from assms have "x < 2 ^ 7" by simp
  then have "bit x n \<Longrightarrow> n < 8" for n using bit_small_nat [of x 7 n] by simp
  then show ?thesis by (intro bit_word_eqI) (auto simp: bit_simps)
qed

lemma bit_byte_128: "bit (128 :: byte) n \<longleftrightarrow> n = 7"
proof -
  have "bit (2 ^ 7 :: byte) n \<longleftrightarrow> n = 7" unfolding bit_exp_iff by auto
  then show ?thesis by simp
qed

lemma bit_int_128: "bit (128 :: int) n \<longleftrightarrow> n = 7"
proof -
  have "bit (2 ^ 7 :: int) n \<longleftrightarrow> n = 7" unfolding bit_exp_iff by auto
  then show ?thesis by simp
qed

lemma byte_7f: "(0x7f :: byte) = mask 7"
  by (simp add: mask_eq_exp_minus_1)

lemma byte_cont_not_small: "\<not> ((of_nat x :: byte) OR 0x80) < 0x80"
proof -
  have "(0x80 :: byte) \<le> 0x80 OR of_nat x" by (rule le_word_or2)
  then show ?thesis by (simp add: or.commute)
qed

lemma byte_and_7f: "(ucast (((of_nat x :: byte) OR 0x80) AND 0x7f) :: 64 word) = of_nat (x mod 128)"
proof -
  have m: "x mod 128 = take_bit 7 x" by (simp add: take_bit_eq_mod)
  have e: "((of_nat x :: byte) OR 0x80) AND 0x7f = of_nat x AND mask 7"
    unfolding byte_7f by (rule bit_word_eqI) (auto simp: bit_simps bit_byte_128 bit_int_128)
  show ?thesis unfolding m e
    by (rule bit_word_eqI) (auto simp: bit_simps)
qed

lemma length_PutUvarint: "0 < k \<Longrightarrow> x < 2 ^ (7 * k) \<Longrightarrow> length (PutUvarint x) \<le> k"
proof (induction k arbitrary: x)
  case 0
  then show ?case by simp
next
  case (Suc k)
  show ?case
  proof (cases "x < 128")
    case True
    then show ?thesis by (simp add: PutUvarint.simps [of x])
  next
    case False
    have k: "0 < k"
    proof (rule ccontr)
      assume "\<not> 0 < k"
      with Suc.prems False show False by simp
    qed
    from Suc.prems have "x < 128 * 2 ^ (7 * k)" by (simp add: power_add)
    then have "x div 128 < 2 ^ (7 * k)" by (simp add: less_mult_imp_div_less mult.commute)
    from Suc.IH [OF k this] False show ?thesis by (simp add: PutUvarint.simps [of x])
  qed
qed

lemma ReadUvarint_loop_PutUvarint:
  "0 < k \<Longrightarrow> x < 2 ^ (7 * k) \<Longrightarrow> i + k \<le> 9 \<Longrightarrow>
     ReadUvarint_loop i acc sh (PutUvarint x @ rest) = Inr (acc OR push_bit sh (of_nat x), rest)"
proof (induction k arbitrary: x i acc sh)
  case 0
  then show ?case by simp
next
  case (Suc k)
  from Suc.prems have i: "i < 9" by simp
  show ?case
  proof (cases "x < 128")
    case True
    with i show ?thesis
      by (simp add: PutUvarint.simps [of x] ReadUvarint_loop.simps [of i acc sh]
          byte_of_nat_small ucast_byte_of_nat)
  next
    case False
    have k: "0 < k"
    proof (rule ccontr)
      assume "\<not> 0 < k"
      with Suc.prems False show False by simp
    qed
    from Suc.prems have "x < 128 * 2 ^ (7 * k)" by (simp add: power_add)
    then have d: "x div 128 < 2 ^ (7 * k)" by (simp add: less_mult_imp_div_less mult.commute)
    from Suc.prems have ik: "(i + 1) + k \<le> 9" by simp
    have "ReadUvarint_loop i acc sh (PutUvarint x @ rest) =
        ReadUvarint_loop (i + 1) (acc OR push_bit sh (of_nat (x mod 128))) (sh + 7)
          (PutUvarint (x div 128) @ rest)"
      using False i
      by (simp add: PutUvarint.simps [of x] ReadUvarint_loop.simps [of i acc sh]
          byte_cont_not_small byte_and_7f)
    also have "\<dots> = Inr ((acc OR push_bit sh (of_nat (x mod 128))) OR
        push_bit (sh + 7) (of_nat (x div 128)), rest)"
      by (rule Suc.IH [OF k d ik])
    also have "(acc OR push_bit sh (of_nat (x mod 128))) OR push_bit (sh + 7) (of_nat (x div 128)) =
        acc OR push_bit sh (of_nat x)"
      by (simp add: or.assoc of_nat_split7)
    finally show ?thesis .
  qed
qed

lemma readUint32_PutUvarint:
  assumes "n < 2 ^ 32"
  shows "readUint32 (PutUvarint n @ rest) = Inr (n, rest)"
proof -
  from assms have "n < 2 ^ (7 * 5)" by simp
  then have "ReadUvarint (PutUvarint n @ rest) = Inr (of_nat n, rest)"
    using ReadUvarint_loop_PutUvarint [of 5 n 0 0 0 rest] by (simp add: ReadUvarint_def)
  moreover have "unat (of_nat n :: 64 word) = n"
    using assms by (simp add: unat_of_nat take_bit_nat_eq_self)
  moreover from this assms have "\<not> (of_nat n :: 64 word) > 0xFFFFFFFF"
    "\<not> (of_nat n :: 64 word) > 0x7FFFFFFFFFFFFFFF"
    by (simp_all add: word_less_nat_alt)
  ultimately show ?thesis by (simp add: readUint32_def)
qed

lemma writeUvarint_small: "n < 2 ^ 32 \<Longrightarrow> writeUvarint w n = Inr (w @ PutUvarint n)"
  using length_PutUvarint [of 5 n] by (simp add: writeUvarint_def)


lemma ReadFull_exact: "ReadFull (length bs) (bs @ rest) = Inr (bs, rest)"
  by (simp add: ReadFull_def)

lemma binary_Read_exact: "k = length bs \<Longrightarrow> binary_Read k dec (bs @ rest) = Inr (dec bs, rest)"
  by (simp add: binary_Read_def ReadFull_exact)

lemma readHeader_empty: "readHeader (bcVersion # 0 # s) = Inr ([], s)"
  using readUint32_single [of 0 s] by (simp add: readHeader_def readByte_def)

lemma writeTypedArray_small:
  "n < 2 ^ 32 \<Longrightarrow>
   writeTypedArray w n bs kind =
     (w @ tagTypedArray # kind # PutUvarint n @ 0 # tagArrayBuffer # PutUvarint n @ bs, None)"
  by (simp add: writeTypedArray_def writeUvarint_small writeUvarint_zero)

lemma readTypedArray_encoded:
  "n < 2 ^ 32 \<Longrightarrow>
   readTypedArray (kind # PutUvarint n @ 0 # tagArrayBuffer # PutUvarint n @ bs) =
     readElements kind n bs"
  using readUint32_single [of 0 "tagArrayBuffer # PutUvarint n @ bs"]
  by (simp add: readTypedArray_def readByte_def readUint32_PutUvarint)

lemma readBytes_exact: "readBytes (length bs) bs = Inr (bs, [])"
  by (simp add: readBytes_def)

lemma typed_roundtrip:
  assumes w: "writeTypedArray [bcVersion, 0] n bs kind = (out, None)"
    and n: "n < 2 ^ 32" and e: "readElements kind n bs = Inr (v, [])"
  shows "ReadValue out = Inr (v, [])"
proof -
  from w n have "out = bcVersion # 0 # tagTypedArray # kind # PutUvarint n @ 0 # tagArrayBuffer # PutUvarint n @ bs"
    by (simp add: writeTypedArray_small)
  with n e show ?thesis
    by (simp add: ReadValue_def readHeader_empty readValue_TypedArray readTypedArray_encoded)
qed

lemma binary_Read_bytes: "binary_Read (length t) dec t = Inr (dec t, [])"
  using binary_Read_exact [of "length t" t dec "[]"] by simp

lemma binary_Read_encoded:
  "binary_Read (k * length t) dec (concat (map (le_bytes k) t)) =
     Inr (dec (concat (map (le_bytes k) t)), [])"
  using binary_Read_exact [of "k * length t" "concat (map (le_bytes k) t)" dec "[]"]
  by (simp add: length_encode)

lemma readElements_encoded:
  "readElements uint8ClampedArray (length t) t = Inr (VUint8s t, [])"
  "readElements uint8Array (length t) t = Inr (VUint8s t, [])"
  "readElements int8Array (length t) t = Inr (VInt8s t, [])"
  "readElements int16Array (length t16) (concat (map (le_bytes 2) t16)) = Inr (VInt16s t16, [])"
  "readElements uint16Array (length t16) (concat (map (le_bytes 2) t16)) = Inr (VUint16s t16, [])"
  "readElements int32Array (length t32) (concat (map (le_bytes 4) t32)) = Inr (VInt32s t32, [])"
  "readElements uint32Array (length t32) (concat (map (le_bytes 4) t32)) = Inr (VUint32s t32, [])"
  "readElements bigInt64Array (length t64) (concat (map (le_bytes 8) t64)) = Inr (VInt64s t64, [])"
  "readElements bigUint64Array (length t64) (concat (map (le_bytes 8) t64)) = Inr (VUint64s t64, [])"
  "readElements float32Array (length t32) (concat (map (le_bytes 4) t32)) =
     Inr (VFloat32s (map quiet32 t32), [])"
  "readElements float64Array (length t64) (concat (map (le_bytes 8) t64)) = Inr (VFloat64s t64, [])"
  by (simp_all add: readElements_def kind_defs binary_Read_bytes binary_Read_encoded
      le_words16_encode le_words32_encode le_words64_encode)

lemma roundtrip_encoded:
  assumes w: "WriteValue v = (out, None)" and n: "elements v < 2 ^ 32"
  shows "ReadValue out = Inr (decoded v, [])"
proof -
  have simple: "ReadValue [bcVersion, 0, tagNull] = Inr (VNil, [])"
    "ReadValue [bcVersion, 0, tagUndefined] = Inr (VUndefined, [])"
    "ReadValue [bcVersion, 0, tagFalse] = Inr (VBool False, [])"
    "ReadValue [bcVersion, 0, tagTrue] = Inr (VBool True, [])"
    by (simp_all add: ReadValue_def readHeader_empty readValue_Null readValue_Undefined
        readValue_False readValue_True)
  have buffer: "ReadValue (bcVersion # 0 # tagArrayBuffer # PutUvarint (length b) @ b) = Inr (VUint8s b, [])"
    if "length b < 4294967296" for b
    using that by (simp add: ReadValue_def readHeader_empty readValue_ArrayBuffer
        readUint32_PutUvarint readBytes_exact)
  have empty_typed:
    "readElements uint8Array 0 [] = Inr (VUint8s [], [])"
    "readElements int8Array 0 [] = Inr (VInt8s [], [])"
    "readElements int16Array 0 [] = Inr (VInt16s [], [])"
    "readElements uint16Array 0 [] = Inr (VUint16s [], [])"
    "readElements int32Array 0 [] = Inr (VInt32s [], [])"
    "readElements uint32Array 0 [] = Inr (VUint32s [], [])"
    "readElements bigInt64Array 0 [] = Inr (VInt64s [], [])"
    "readElements bigUint64Array 0 [] = Inr (VUint64s [], [])"
    "readElements float32Array 0 [] = Inr (VFloat32s [], [])"
    "readElements float64Array 0 [] = Inr (VFloat64s [], [])"
    using readElements_encoded [of "[]"] by simp_all
  from w n show ?thesis
    by (cases v)
      (auto simp: WriteValue_def writeUvarint_zero writeUvarint_small Let_def simple buffer
        readElements_encoded empty_typed intro: typed_roundtrip split: if_splits)
qed


lemma WriteValue_supported:
  "supported v \<Longrightarrow> elements v < 2 ^ 32 \<Longrightarrow> snd (WriteValue v) = None"
  by (cases v)
    (auto simp: WriteValue_def writeUvarint_zero writeUvarint_small writeTypedArray_small Let_def
      slice_types_def)

lemma WriteValue_unsupported:
  "\<not> supported v \<Longrightarrow> snd (WriteValue v) = Some (UnsupportedValue (typeOf v))"
  by (cases v) (auto simp: WriteValue_def writeUvarint_zero Let_def slice_types_def)

text \<open>
  A slice of \<open>float32\<close> comes back as it was exactly when it holds no signalling NaN,
  and a supported value exactly when it is \<open>faithful\<close>.
\<close>

lemma or_exp_absorb: "bit (w :: 'a::len word) n \<Longrightarrow> w OR 2 ^ n = w"
  by (intro bit_word_eqI) (auto simp: bit_simps)

lemma or_bit22: "(w :: 32 word) OR 0x00400000 = w \<longleftrightarrow> w AND 0x00400000 \<noteq> 0"
proof -
  have m: "(0x00400000 :: 32 word) = 2 ^ 22" by simp
  have a: "w AND 2 ^ 22 \<noteq> 0 \<longleftrightarrow> bit w 22"
    using and_exp_eq_0_iff_not_bit [of w 22] by blast
  have b: "w OR 2 ^ 22 = w \<longleftrightarrow> bit w 22"
  proof
    assume "w OR 2 ^ 22 = w"
    then have "bit w 22 = bit (w OR 2 ^ 22) 22" by simp
    then show "bit w 22" by (simp add: bit_simps)
  next
    assume "bit w 22"
    then show "w OR 2 ^ 22 = w" by (rule or_exp_absorb)
  qed
  show ?thesis unfolding m a b ..
qed

lemma quiet32_fixed: "quiet32 w = w \<longleftrightarrow> \<not> signalling32 w"
  using or_bit22 [of w] by (auto simp: quiet32_def signalling32_def)

lemma map_quiet32_fixed: "map quiet32 t = t \<longleftrightarrow> \<not> list_ex signalling32 t"
  by (induction t) (auto simp: quiet32_fixed)

lemma decoded_faithful: "supported v \<Longrightarrow> decoded v = v \<longleftrightarrow> faithful v"
  by (cases v) (auto simp: map_quiet32_fixed slice_types_def)

text \<open>
  Claim C5, as amended. For every value the encoder supports, with fewer than \<open>2 ^ 32\<close>
  elements when it is a slice or a buffer, encoding succeeds and decoding the bytes
  succeeds with nothing left over. The value that comes back is the value that went in
  (floats compared by their bits) exactly when that is null, undefined, a boolean, or a
  slice of numbers that is not nil and, if its elements are \<open>float32\<close>, holds no signalling
  NaN. Otherwise it is a value near it: the plain byte slice of the same bytes for an
  \<open>ArrayBuffer\<close> and a \<open>Uint8ClampedArray\<close>, the empty slice for a nil slice, and for a
  slice of \<open>float32\<close> the same elements with every signalling NaN made quiet.
\<close>

theorem roundtrip:
  assumes "supported v" and "elements v < 2 ^ 32"
  shows "snd (WriteValue v) = None \<and>
    ReadValue (fst (WriteValue v)) = Inr (decoded v, []) \<and>
    (decoded v = v \<longleftrightarrow> faithful v)"
proof -
  from assms have "snd (WriteValue v) = None" by (rule WriteValue_supported)
  then have "WriteValue v = (fst (WriteValue v), None)" by (simp add: prod_eq_iff)
  from roundtrip_encoded [OF this assms(2)] \<open>snd (WriteValue v) = None\<close>
    decoded_faithful [OF assms(1)]
  show ?thesis by simp
qed

theorem roundtrip_witness:
  "supported (VInt16s [1, 2, 65535]) \<and> elements (VInt16s [1, 2, 65535]) < 2 ^ 32 \<and>
   faithful (VInt16s [1, 2, 65535]) \<and>
   WriteValue (VInt16s [1, 2, 65535]) = ([12, 0, 14, 3, 3, 0, 15, 3, 1, 0, 2, 0, 255, 255], None) \<and>
   ReadValue [12, 0, 14, 3, 3, 0, 15, 3, 1, 0, 2, 0, 255, 255] = Inr (VInt16s [1, 2, 65535], []) \<and>
   supported (VFloat32s [0x7FA00000, 0x3F800000]) \<and>
   elements (VFloat32s [0x7FA00000, 0x3F800000]) < 2 ^ 32 \<and>
   \<not> faithful (VFloat32s [0x7FA00000, 0x3F800000]) \<and>
   WriteValue (VFloat32s [0x7FA00000, 0x3F800000]) =
     ([12, 0, 14, 9, 2, 0, 15, 2, 0, 0, 0xA0, 0x7F, 0, 0, 0x80, 0x3F], None) \<and>
   ReadValue [12, 0, 14, 9, 2, 0, 15, 2, 0, 0, 0xA0, 0x7F, 0, 0, 0x80, 0x3F] =
     Inr (VFloat32s [0x7FE00000, 0x3F800000], []) \<and>
   supported (VNilOf TInt16s) \<and> elements (VNilOf TInt16s) < 2 ^ 32 \<and>
   \<not> faithful (VNilOf TInt16s) \<and>
   WriteValue (VNilOf TInt16s) = ([12, 0, 14, 3, 0, 0, 15, 0], None) \<and>
   ReadValue [12, 0, 14, 3, 0, 0, 15, 0] = Inr (VInt16s [], [])"
proof -
  have w: "WriteValue (VInt16s [1, 2, 65535]) = ([12, 0, 14, 3, 3, 0, 15, 3, 1, 0, 2, 0, 255, 255], None)"
    "WriteValue (VFloat32s [0x7FA00000, 0x3F800000]) =
       ([12, 0, 14, 9, 2, 0, 15, 2, 0, 0, 0xA0, 0x7F, 0, 0, 0x80, 0x3F], None)"
    "WriteValue (VNilOf TInt16s) = ([12, 0, 14, 3, 0, 0, 15, 0], None)"
    by code_simp+
  have d: "decoded (VFloat32s [0x7FA00000, 0x3F800000]) = VFloat32s [0x7FE00000, 0x3F800000]"
    "decoded (VNilOf TInt16s) = VInt16s []"
    "decoded (VInt16s [1, 2, 65535]) = VInt16s [1, 2, 65535]"
    by code_simp+
  have f: "faithful (VInt16s [1, 2, 65535])"
    "\<not> faithful (VFloat32s [0x7FA00000, 0x3F800000])"
    "\<not> faithful (VNilOf TInt16s)"
    by code_simp+
  have h: "supported (VInt16s [1, 2, 65535])" "elements (VInt16s [1, 2, 65535]) < 2 ^ 32"
    "supported (VFloat32s [0x7FA00000, 0x3F800000])"
    "elements (VFloat32s [0x7FA00000, 0x3F800000]) < 2 ^ 32"
    "supported (VNilOf TInt16s)" "elements (VNilOf TInt16s) < 2 ^ 32"
    by (simp_all add: slice_types_def)
  from roundtrip [OF h(1,2)] roundtrip [OF h(3,4)] roundtrip [OF h(5,6)]
  have "ReadValue (fst (WriteValue (VInt16s [1, 2, 65535]))) =
      Inr (decoded (VInt16s [1, 2, 65535]), [])"
    "ReadValue (fst (WriteValue (VFloat32s [0x7FA00000, 0x3F800000]))) =
      Inr (decoded (VFloat32s [0x7FA00000, 0x3F800000]), [])"
    "ReadValue (fst (WriteValue (VNilOf TInt16s))) = Inr (decoded (VNilOf TInt16s), [])"
    by blast+
  then have r: "ReadValue [12, 0, 14, 3, 3, 0, 15, 3, 1, 0, 2, 0, 255, 255] = Inr (VInt16s [1, 2, 65535], [])"
    "ReadValue [12, 0, 14, 9, 2, 0, 15, 2, 0, 0, 0xA0, 0x7F, 0, 0, 0x80, 0x3F] =
       Inr (VFloat32s [0x7FE00000, 0x3F800000], [])"
    "ReadValue [12, 0, 14, 3, 0, 0, 15, 0] = Inr (VInt16s [], [])"
    unfolding w d by simp_all
  from w f h r show ?thesis by blast
qed

text \<open>
  The claim as stated fails for the two wrapper types: an \<open>ArrayBuffer\<close> of one byte is
  encoded, and decodes to a byte slice, which is not the \<open>ArrayBuffer\<close>.
\<close>

theorem array_buffer_decodes_to_bytes:
  "WriteValue (VArrayBuffer [42]) = ([12, 0, 15, 1, 42], None) \<and>
   ReadValue [12, 0, 15, 1, 42] = Inr (VUint8s [42], []) \<and>
   VUint8s [42] \<noteq> VArrayBuffer [42]"
  by code_simp


end
